theory Spec2Isabelle
  imports Main "HOL-Library.AList"
begin

section \<open>Python values and the operations the program applies to them\<close>

text \<open>
  \<^verbatim>\<open>autotype.py\<close> keeps its commands as whatever \<^verbatim>\<open>json.load\<close> returned: lists,
  dictionaries with string keys, strings, integers, booleans and \<^verbatim>\<open>None\<close>. The program
  never checks the shape of that value, so the model keeps it untyped as well. A
  dictionary is an association list in insertion order; strings are lists of code points
  below 256. Floating point numbers are left out.
\<close>

datatype pyval =
    PNone
  | PBool bool
  | PInt int
  | PStr string
  | PList "pyval list"
  | PDict "(string \<times> pyval) list"

text \<open>
  The exceptions the modelled statements can raise. \<open>Unmodelled\<close> is not a Python
  exception: it marks the one place where the model stops, the text an f-string produces
  for a list or a dictionary.
\<close>

datatype pyerr = KeyError | IndexError | TypeError | AttributeError | Unmodelled

text \<open>Sequencing of two steps, the second skipped when the first raises.\<close>

definition and_then :: "pyerr + 'a \<Rightarrow> ('a \<Rightarrow> pyerr + 'b) \<Rightarrow> pyerr + 'b" where
  "and_then r f = (case r of Inl e \<Rightarrow> Inl e | Inr v \<Rightarrow> f v)"

text \<open>
  Position of index \<open>i\<close> in a sequence of length \<open>n\<close>: Python counts a negative index
  from the end, and an index outside \<open>-n .. n-1\<close> has no position.
\<close>

definition norm_index :: "nat \<Rightarrow> int \<Rightarrow> nat option" where
  "norm_index n i =
     (if 0 \<le> i \<and> i < int n then Some (nat i)
      else if - int n \<le> i \<and> i < 0 then Some (nat (int n + i))
      else None)"

text \<open>\<^verbatim>\<open>v[i]\<close> for an integer \<open>i\<close>.\<close>

fun getitem_int :: "pyval \<Rightarrow> int \<Rightarrow> pyerr + pyval" where
  "getitem_int (PList xs) i =
     (case norm_index (length xs) i of None \<Rightarrow> Inl IndexError | Some j \<Rightarrow> Inr (xs ! j))"
| "getitem_int (PStr s) i =
     (case norm_index (length s) i of None \<Rightarrow> Inl IndexError | Some j \<Rightarrow> Inr (PStr [s ! j]))"
| "getitem_int (PDict kvs) i = Inl KeyError"
| "getitem_int v i = Inl TypeError"

text \<open>\<^verbatim>\<open>v["k"]\<close> for a string key.\<close>

fun getitem_str :: "pyval \<Rightarrow> string \<Rightarrow> pyerr + pyval" where
  "getitem_str (PDict kvs) k =
     (case map_of kvs k of None \<Rightarrow> Inl KeyError | Some v \<Rightarrow> Inr v)"
| "getitem_str v k = Inl TypeError"

text \<open>
  \<^verbatim>\<open>v["k"] = x\<close>: a dictionary keeps the position of a key it already has and puts a
  new key last; nothing else accepts a string key.
\<close>

fun setitem_str :: "pyval \<Rightarrow> string \<Rightarrow> pyval \<Rightarrow> pyerr + pyval" where
  "setitem_str (PDict kvs) k x = Inr (PDict (AList.update k x kvs))"
| "setitem_str v k x = Inl TypeError"

text \<open>\<^verbatim>\<open>v.append(x)\<close>: only a list has the method.\<close>

fun append_py :: "pyval \<Rightarrow> pyval \<Rightarrow> pyerr + pyval" where
  "append_py (PList xs) x = Inr (PList (xs @ [x]))"
| "append_py v x = Inl AttributeError"

text \<open>
  The items \<^verbatim>\<open>for x in v\<close> visits: the elements of a list, the keys of a dictionary, the
  characters of a string.
\<close>

fun iter_items :: "pyval \<Rightarrow> pyerr + pyval list" where
  "iter_items (PList xs) = Inr xs"
| "iter_items (PDict kvs) = Inr (map (\<lambda>kv. PStr (fst kv)) kvs)"
| "iter_items (PStr s) = Inr (map (\<lambda>c. PStr [c]) s)"
| "iter_items v = Inl TypeError"

text \<open>Decimal digits of a natural number, as \<^verbatim>\<open>str\<close> prints them.\<close>

function show_nat :: "nat \<Rightarrow> string" where
  "show_nat n =
     (if n < 10 then [''0123456789'' ! n]
      else show_nat (n div 10) @ [''0123456789'' ! (n mod 10)])"
  by pat_completeness auto
termination
  by (relation "measure id") auto

declare show_nat.simps [simp del]

definition show_int :: "int \<Rightarrow> string" where
  "show_int i = (if i < 0 then CHR ''-'' # show_nat (nat (- i)) else show_nat (nat i))"

text \<open>
  The text a replacement field \<^verbatim>\<open>{v}\<close> of an f-string contributes, which is \<^verbatim>\<open>str(v)\<close>.
\<close>

fun format_value :: "pyval \<Rightarrow> pyerr + string" where
  "format_value (PStr s) = Inr s"
| "format_value PNone = Inr ''None''"
| "format_value (PBool b) = Inr (if b then ''True'' else ''False'')"
| "format_value (PInt i) = Inr (show_int i)"
| "format_value v = Inl Unmodelled"

section \<open>Compiling the commands into abbreviations: \<^verbatim>\<open>AutoTypeApp.listen_keys\<close>\<close>

text \<open>
  \<^verbatim>\<open>
  for command in self.query_one(CommandList).commands:
      keyboard.add_abbreviation(command['command'], command['text'])
      if command['type'] == 'parent':
          for child in command['children']:
              keyboard.add_abbreviation(f"{command['command']}{child['command']}", child['text'])
  \<close>
  The model returns the calls of \<^verbatim>\<open>keyboard.add_abbreviation\<close> in the order they are made,
  each with its two arguments, and the exception that ended the loop, if one did: the
  calls made before an exception stay made.
\<close>

type_synonym abbrev = "pyval \<times> pyval"

definition child_abbreviation :: "pyval \<Rightarrow> pyval \<Rightarrow> pyerr + abbrev" where
  "child_abbreviation command child =
     and_then (getitem_str command ''command'') (\<lambda>a.
     and_then (format_value a) (\<lambda>fa.
     and_then (getitem_str child ''command'') (\<lambda>b.
     and_then (format_value b) (\<lambda>fb.
     and_then (getitem_str child ''text'') (\<lambda>t.
       Inr (PStr (fa @ fb), t))))))"

fun register_children :: "pyval \<Rightarrow> pyval list \<Rightarrow> abbrev list \<times> pyerr option" where
  "register_children command [] = ([], None)"
| "register_children command (child # rest) =
     (case child_abbreviation command child of
        Inl e \<Rightarrow> ([], Some e)
      | Inr call \<Rightarrow>
          (case register_children command rest of (calls, r) \<Rightarrow> (call # calls, r)))"

definition register_command :: "pyval \<Rightarrow> abbrev list \<times> pyerr option" where
  "register_command command =
     (case getitem_str command ''command'' of
        Inl e \<Rightarrow> ([], Some e)
      | Inr trigger \<Rightarrow>
     (case getitem_str command ''text'' of
        Inl e \<Rightarrow> ([], Some e)
      | Inr txt \<Rightarrow>
     (case getitem_str command ''type'' of
        Inl e \<Rightarrow> ([(trigger, txt)], Some e)
      | Inr ty \<Rightarrow>
          if ty = PStr ''parent'' then
            (case and_then (getitem_str command ''children'') iter_items of
               Inl e \<Rightarrow> ([(trigger, txt)], Some e)
             | Inr children \<Rightarrow>
                 (case register_children command children of
                    (calls, r) \<Rightarrow> ((trigger, txt) # calls, r)))
          else ([(trigger, txt)], None))))"

fun register_all :: "pyval list \<Rightarrow> abbrev list \<times> pyerr option" where
  "register_all [] = ([], None)"
| "register_all (command # rest) =
     (case register_command command of
        (calls, Some e) \<Rightarrow> (calls, Some e)
      | (calls, None) \<Rightarrow>
          (case register_all rest of (later, r) \<Rightarrow> (calls @ later, r)))"

definition listen_keys :: "pyval \<Rightarrow> abbrev list \<times> pyerr option" where
  "listen_keys cmds =
     (case iter_items cmds of
        Inl e \<Rightarrow> ([], Some e)
      | Inr items \<Rightarrow> register_all items)"

text \<open>
  Modelled from the spec: the trigger table. The source hands every pair to the keyboard
  library and keeps no table of its own; the spec's table is the dictionary that results
  from registering the pairs one after the other, a later pair replacing an earlier one
  with the same trigger.
\<close>

definition register :: "abbrev \<Rightarrow> (pyval \<rightharpoonup> pyval) \<Rightarrow> (pyval \<rightharpoonup> pyval)" where
  "register call table = table(fst call \<mapsto> snd call)"

definition table_of :: "abbrev list \<Rightarrow> (pyval \<rightharpoonup> pyval)" where
  "table_of calls = fold register calls Map.empty"

section \<open>The commands as the spec describes them\<close>

text \<open>
  The spec's data model: a command has a name, a trigger, a text and a kind, and a parent
  has children. \<open>abs_command\<close> reads a stored entry as such a command when its fields
  are strings (and, for a parent, its children are a list of such entries); the persisted
  key of the trigger is \<^verbatim>\<open>command\<close> and that of the kind is \<^verbatim>\<open>type\<close>, where every value other
  than \<^verbatim>\<open>"parent"\<close> makes a leaf.
\<close>

datatype kind = Parent | Child

record leaf =
  leaf_name :: string
  leaf_trigger :: string
  leaf_text :: string

record command = leaf +
  cmd_kind :: kind
  cmd_children :: "leaf list"

definition str_field :: "pyval \<Rightarrow> string \<Rightarrow> string option" where
  "str_field v k = (case getitem_str v k of Inr (PStr s) \<Rightarrow> Some s | _ \<Rightarrow> None)"

definition abs_leaf :: "pyval \<Rightarrow> leaf option" where
  "abs_leaf v =
     (case (str_field v ''name'', str_field v ''command'', str_field v ''text'') of
        (Some n, Some t, Some x) \<Rightarrow> Some \<lparr>leaf_name = n, leaf_trigger = t, leaf_text = x\<rparr>
      | _ \<Rightarrow> None)"

definition abs_command :: "pyval \<Rightarrow> command option" where
  "abs_command v =
     (case (abs_leaf v, str_field v ''type'') of
        (Some l, Some ty) \<Rightarrow>
          if ty = ''parent'' then
            (case getitem_str v ''children'' of
               Inr (PList chs) \<Rightarrow>
                 (case those (map abs_leaf chs) of
                    Some ls \<Rightarrow> Some (leaf.extend l \<lparr>cmd_kind = Parent, cmd_children = ls\<rparr>)
                  | None \<Rightarrow> None)
             | _ \<Rightarrow> None)
          else Some (leaf.extend l \<lparr>cmd_kind = Child, cmd_children = []\<rparr>)
      | _ \<Rightarrow> None)"

definition abs_collection :: "pyval \<Rightarrow> command list option" where
  "abs_collection v = (case v of PList cs \<Rightarrow> those (map abs_command cs) | _ \<Rightarrow> None)"

text \<open>
  The spec's compilation, in its words: every top-level entry gives the pair of its
  trigger and its text, and a parent gives after it, for each child in order, the pair of
  the concatenated triggers and the child's text.
\<close>

definition entry_pairs :: "command \<Rightarrow> (string \<times> string) list" where
  "entry_pairs e =
     (leaf_trigger e, leaf_text e) #
     (if cmd_kind e = Parent
      then map (\<lambda>c. (leaf_trigger e @ leaf_trigger c, leaf_text c)) (cmd_children e)
      else [])"

definition compile_spec :: "command list \<Rightarrow> (string \<times> string) list" where
  "compile_spec cs = concat (map entry_pairs cs)"

definition as_call :: "string \<times> string \<Rightarrow> abbrev" where
  "as_call p = (PStr (fst p), PStr (snd p))"

section \<open>The form: \<^verbatim>\<open>Form.on_input_changed\<close> and \<^verbatim>\<open>Form.on_text_area_changed\<close>\<close>

text \<open>
  The form's \<^verbatim>\<open>data\<close> dictionary. \<^verbatim>\<open>index\<close> and \<^verbatim>\<open>parent\<close> are \<^verbatim>\<open>None\<close> or a position that
  \<^verbatim>\<open>enumerate\<close> produced; the program reads both with \<^verbatim>\<open>data.get\<close>, which does not tell a
  missing key from \<^verbatim>\<open>None\<close>. The other three keys are read with \<^verbatim>\<open>data["..."]\<close>, which raises
  \<^verbatim>\<open>KeyError\<close> when the key is missing: that is \<open>None\<close> here.
\<close>

record form_data =
  fd_index :: "int option"
  fd_parent :: "int option"
  fd_name :: "pyval option"
  fd_command :: "pyval option"
  fd_text :: "pyval option"




definition on_text_area_changed :: "string \<Rightarrow> form_data \<Rightarrow> form_data" where
  "on_text_area_changed txt d = d\<lparr>fd_text := Some (PStr txt)\<rparr>"

section \<open>The application state, \<^verbatim>\<open>commands.json\<close> and \<^verbatim>\<open>AutoTypeApp.on_button_pressed\<close>\<close>

text \<open>
  The state: the commands held by \<^verbatim>\<open>CommandList\<close>, the text of \<^verbatim>\<open>commands.json\<close> (\<open>None\<close>
  when the file does not exist), the form data, and the abbreviations handed to the
  keyboard library so far.
\<close>

record app =
  commands :: pyval
  commands_json :: "string option"
  form :: form_data
  registered :: "abbrev list"

text \<open>
  \<^verbatim>\<open>json.load\<close> and \<^verbatim>\<open>json.dump(..., indent=2)\<close> belong to Python's library, not to the
  program. The operations take them as parameters: \<open>parse\<close> gives the value a text
  stands for, or \<open>None\<close> when \<^verbatim>\<open>json.load\<close> raises, and \<open>dump\<close> gives the text written
  for a value.

  \<^verbatim>\<open>
  commands = reactive([])
  try:
      commands = reactive(json.load(open("commands.json")))
  except Exception:
      with open("commands.json", "w") as file:
          json.dump([], file, indent=2)
  \<close>
\<close>

definition blank_form :: "int option \<Rightarrow> form_data" where
  "blank_form parent =
     \<lparr>fd_index = None, fd_parent = parent, fd_name = None, fd_command = None, fd_text = None\<rparr>"

definition load :: "(string \<Rightarrow> pyval option) \<Rightarrow> (pyval \<Rightarrow> string) \<Rightarrow> string option \<Rightarrow> app" where
  "load parse dump file =
     (case (case file of None \<Rightarrow> None | Some txt \<Rightarrow> parse txt) of
        Some v \<Rightarrow>
          \<lparr>commands = v, commands_json = file, form = blank_form None, registered = []\<rparr>
      | None \<Rightarrow>
          \<lparr>commands = PList [], commands_json = Some (dump (PList [])),
           form = blank_form None, registered = []\<rparr>)"

text \<open>
  \<^verbatim>\<open>
  with open("commands.json", "w") as file:
      json.dump(command_list.commands, file, indent=2)
  \<close>
\<close>

definition save :: "(pyval \<Rightarrow> string) \<Rightarrow> app \<Rightarrow> app" where
  "save dump s = s\<lparr>commands_json := Some (dump (commands s))\<rparr>"

text \<open>\<^verbatim>\<open>data["k"]\<close> for one of the three keys that may be missing.\<close>

definition data_item :: "pyval option \<Rightarrow> pyerr + pyval" where
  "data_item v = (case v of None \<Rightarrow> Inl KeyError | Some x \<Rightarrow> Inr x)"

text \<open>
  Subscripting returns the object the container holds, not a copy, so a change made to
  that object is seen through the container. The values here come from \<^verbatim>\<open>json.load\<close> and
  from fresh dictionaries, so no object is reached by two paths, and the model puts the
  changed object back at the place it was read from.
\<close>

definition put_int :: "pyval \<Rightarrow> int \<Rightarrow> pyval \<Rightarrow> pyval" where
  "put_int v i x =
     (case v of
        PList xs \<Rightarrow>
          (case norm_index (length xs) i of Some j \<Rightarrow> PList (xs[j := x]) | None \<Rightarrow> v)
      | _ \<Rightarrow> v)"

definition put_str :: "pyval \<Rightarrow> string \<Rightarrow> pyval \<Rightarrow> pyval" where
  "put_str v k x = (case v of PDict kvs \<Rightarrow> PDict (AList.update k x kvs) | _ \<Rightarrow> v)"

text \<open>
  \<^verbatim>\<open>command_list.commands[data["index"]][k] = data[k]\<close>: the right-hand side is evaluated
  first.
\<close>

definition assign_top :: "int \<Rightarrow> string \<Rightarrow> pyval option \<Rightarrow> pyval \<Rightarrow> pyerr + pyval" where
  "assign_top i k dv cmds =
     and_then (data_item dv) (\<lambda>x.
     and_then (getitem_int cmds i) (\<lambda>entry.
     and_then (setitem_str entry k x) (\<lambda>entry'.
       Inr (put_int cmds i entry'))))"

text \<open>\<^verbatim>\<open>command_list.commands[data["parent"]]["children"][data["index"]][k] = data[k]\<close>\<close>

definition assign_child :: "int \<Rightarrow> int \<Rightarrow> string \<Rightarrow> pyval option \<Rightarrow> pyval \<Rightarrow> pyerr + pyval" where
  "assign_child p i k dv cmds =
     and_then (data_item dv) (\<lambda>x.
     and_then (getitem_int cmds p) (\<lambda>parent.
     and_then (getitem_str parent ''children'') (\<lambda>children.
     and_then (getitem_int children i) (\<lambda>child.
     and_then (setitem_str child k x) (\<lambda>child'.
       Inr (put_int cmds p (put_str parent ''children'' (put_int children i child'))))))))"

text \<open>
  \<^verbatim>\<open>
  new_command = {
      "name": data["name"],
      "command": data["command"],
      "text": data["text"],
      "type": "parent",
      "children": [],
  }
  \<close>
\<close>

definition new_command :: "form_data \<Rightarrow> pyerr + pyval" where
  "new_command d =
     and_then (data_item (fd_name d)) (\<lambda>n.
     and_then (data_item (fd_command d)) (\<lambda>c.
     and_then (data_item (fd_text d)) (\<lambda>t.
       Inr (PDict [(''name'', n), (''command'', c), (''text'', t),
                   (''type'', PStr ''parent''), (''children'', PList [])]))))"

text \<open>
  \<^verbatim>\<open>
  new_command["type"] = "child"
  command_list.commands[data["parent"]]["children"].append(new_command)
  \<close>
\<close>

definition append_child :: "int \<Rightarrow> pyval \<Rightarrow> pyval \<Rightarrow> pyerr + pyval" where
  "append_child p new cmds =
     and_then (setitem_str new ''type'' (PStr ''child'')) (\<lambda>new'.
     and_then (getitem_int cmds p) (\<lambda>parent.
     and_then (getitem_str parent ''children'') (\<lambda>children.
     and_then (append_py children new') (\<lambda>children'.
       Inr (put_int cmds p (put_str parent ''children'' children'))))))"

text \<open>
  Statements run one after the other; when one raises, the changes of the earlier ones
  stay and the exception leaves the handler.
\<close>

fun run_stmts :: "(pyval \<Rightarrow> pyerr + pyval) list \<Rightarrow> pyval \<Rightarrow> pyerr option \<times> pyval" where
  "run_stmts [] cmds = (None, cmds)"
| "run_stmts (stmt # rest) cmds =
     (case stmt cmds of Inl e \<Rightarrow> (Some e, cmds) | Inr cmds' \<Rightarrow> run_stmts rest cmds')"

text \<open>
  The change the save button makes to the commands (the \<^verbatim>\<open>if data.get("index") is not None\<close>
  statement of \<^verbatim>\<open>on_button_pressed\<close>).
\<close>

definition apply_form :: "form_data \<Rightarrow> pyval \<Rightarrow> pyerr option \<times> pyval" where
  "apply_form d cmds =
     (case fd_index d of
        Some i \<Rightarrow>
          (case fd_parent d of
             Some p \<Rightarrow>
               run_stmts [assign_child p i ''name'' (fd_name d),
                          assign_child p i ''command'' (fd_command d),
                          assign_child p i ''text'' (fd_text d)] cmds
           | None \<Rightarrow>
               run_stmts [assign_top i ''name'' (fd_name d),
                          assign_top i ''command'' (fd_command d),
                          assign_top i ''text'' (fd_text d)] cmds)
      | None \<Rightarrow>
          (case new_command d of
             Inl e \<Rightarrow> (Some e, cmds)
           | Inr new \<Rightarrow>
               (case fd_parent d of
                  Some p \<Rightarrow> run_stmts [append_child p new] cmds
                | None \<Rightarrow> run_stmts [\<lambda>c. append_py c new] cmds)))"

text \<open>
  The buttons. \<^verbatim>\<open>start\<close> registers the abbreviations (the wait for the escape key that
  follows is not modelled); \<^verbatim>\<open>add\<close> and \<^verbatim>\<open>add-child\<close> replace the form data; \<^verbatim>\<open>save\<close> changes
  the commands and, when no statement raised, writes the whole collection to the file. The
  widget styles and the remounting of the command list are left out, and so is the test
  \<^verbatim>\<open>if data is None\<close>, since no statement of the program sets the form data to \<^verbatim>\<open>None\<close>.
  The result is the exception that left the handler, if one did, and the state afterwards.
\<close>

datatype button = Start | Add | AddChild | Save

definition on_button_pressed :: "(pyval \<Rightarrow> string) \<Rightarrow> button \<Rightarrow> app \<Rightarrow> pyerr option \<times> app" where
  "on_button_pressed dump b s =
     (case b of
        Start \<Rightarrow>
          (case listen_keys (commands s) of
             (calls, r) \<Rightarrow> (r, s\<lparr>registered := registered s @ calls\<rparr>))
      | Add \<Rightarrow> (None, s\<lparr>form := blank_form None\<rparr>)
      | AddChild \<Rightarrow> (None, s\<lparr>form := blank_form (fd_index (form s))\<rparr>)
      | Save \<Rightarrow>
          (case apply_form (form s) (commands s) of
             (Some e, cmds) \<Rightarrow> (Some e, s\<lparr>commands := cmds\<rparr>)
           | (None, cmds) \<Rightarrow> (None, save dump (s\<lparr>commands := cmds\<rparr>))))"

section \<open>The tree of commands: \<^verbatim>\<open>CommandList.compose\<close>\<close>








section \<open>A reference codec for \<^verbatim>\<open>commands.json\<close>\<close>

text \<open>
  For evaluating the operations on concrete files: the text \<^verbatim>\<open>json.dump(v, indent=2)\<close>
  writes and the value \<^verbatim>\<open>json.load\<close> reads, for documents without fractional numbers and
  with code points below 256 (outside of that fragment \<open>json_loads\<close> gives \<open>None\<close>). The
  theorems below hold for every \<open>parse\<close> and \<open>dump\<close>; these two only instantiate them.

  \<^verbatim>\<open>json.dump\<close> escapes the quote, the backslash and every character outside the range from
  the space to the tilde; with \<^verbatim>\<open>indent=2\<close> every item of a non-empty list or dictionary
  stands on a line of its own.
\<close>

definition hex_digit :: "nat \<Rightarrow> char" where
  "hex_digit d = ''0123456789abcdef'' ! d"

definition escape_char :: "char \<Rightarrow> string" where
  "escape_char c =
     (if c = CHR 0x22 then [CHR 0x5C, CHR 0x22]
      else if c = CHR 0x5C then [CHR 0x5C, CHR 0x5C]
      else if c = CHR 0x0A then [CHR 0x5C, CHR ''n'']
      else if c = CHR 0x0D then [CHR 0x5C, CHR ''r'']
      else if c = CHR 0x09 then [CHR 0x5C, CHR ''t'']
      else if c = CHR 0x08 then [CHR 0x5C, CHR ''b'']
      else if c = CHR 0x0C then [CHR 0x5C, CHR ''f'']
      else if (of_char c :: nat) < 32 \<or> 126 < (of_char c :: nat) then
        [CHR 0x5C, CHR ''u'', CHR ''0'', CHR ''0'',
         hex_digit (of_char c div 16), hex_digit (of_char c mod 16)]
      else [c])"

definition dump_str :: "string \<Rightarrow> string" where
  "dump_str s = CHR 0x22 # concat (map escape_char s) @ [CHR 0x22]"

definition newline_indent :: "nat \<Rightarrow> string" where
  "newline_indent level = CHR 0x0A # replicate (2 * level) CHR '' ''"

fun join :: "string \<Rightarrow> string list \<Rightarrow> string" where
  "join sep [] = []"
| "join sep [x] = x"
| "join sep (x # y # ys) = x @ sep @ join sep (y # ys)"

fun dump_value :: "nat \<Rightarrow> pyval \<Rightarrow> string" where
  "dump_value level PNone = ''null''"
| "dump_value level (PBool b) = (if b then ''true'' else ''false'')"
| "dump_value level (PInt i) = show_int i"
| "dump_value level (PStr s) = dump_str s"
| "dump_value level (PList xs) =
     (if xs = [] then ''[]''
      else ''['' @ newline_indent (Suc level)
           @ join (CHR '','' # newline_indent (Suc level)) (map (dump_value (Suc level)) xs)
           @ newline_indent level @ '']'')"
| "dump_value level (PDict kvs) =
     (if kvs = [] then ''{}''
      else ''{'' @ newline_indent (Suc level)
           @ join (CHR '','' # newline_indent (Suc level))
               (map (\<lambda>kv. dump_str (fst kv) @ '': '' @ dump_value (Suc level) (snd kv)) kvs)
           @ newline_indent level @ ''}'')"

definition json_dumps :: "pyval \<Rightarrow> string" where
  "json_dumps v = dump_value 0 v"

text \<open>
  \<^verbatim>\<open>json.load\<close>: white space between tokens is skipped, a string may not hold a raw control
  character, a repeated key keeps its first position and its last value, and nothing but
  white space may follow the value. The nesting is bounded by the fuel, which twice the
  length of the text covers.
\<close>

definition is_ws :: "char \<Rightarrow> bool" where
  "is_ws c = (c = CHR '' '' \<or> c = CHR 0x09 \<or> c = CHR 0x0A \<or> c = CHR 0x0D)"

definition skip_ws :: "string \<Rightarrow> string" where
  "skip_ws s = dropWhile is_ws s"

definition expect :: "char \<Rightarrow> string \<Rightarrow> string option" where
  "expect c s = (case skip_ws s of [] \<Rightarrow> None | x # r \<Rightarrow> if x = c then Some r else None)"

fun strip_prefix :: "string \<Rightarrow> string \<Rightarrow> string option" where
  "strip_prefix [] s = Some s"
| "strip_prefix (p # ps) [] = None"
| "strip_prefix (p # ps) (c # cs) = (if p = c then strip_prefix ps cs else None)"

definition hex_val :: "char \<Rightarrow> nat option" where
  "hex_val c =
     (let n = (of_char c :: nat) in
      if 48 \<le> n \<and> n \<le> 57 then Some (n - 48)
      else if 97 \<le> n \<and> n \<le> 102 then Some (n - 87)
      else if 65 \<le> n \<and> n \<le> 70 then Some (n - 55)
      else None)"

definition unescape :: "char \<Rightarrow> char option" where
  "unescape e =
     (if e = CHR 0x22 \<or> e = CHR 0x5C \<or> e = CHR ''/'' then Some e
      else if e = CHR ''n'' then Some (CHR 0x0A)
      else if e = CHR ''r'' then Some (CHR 0x0D)
      else if e = CHR ''t'' then Some (CHR 0x09)
      else if e = CHR ''b'' then Some (CHR 0x08)
      else if e = CHR ''f'' then Some (CHR 0x0C)
      else None)"

definition cons_char :: "char \<Rightarrow> (string \<times> string) option \<Rightarrow> (string \<times> string) option" where
  "cons_char c r = (case r of None \<Rightarrow> None | Some (s, rest) \<Rightarrow> Some (c # s, rest))"

fun scan_string :: "string \<Rightarrow> (string \<times> string) option" where
  "scan_string [] = None"
| "scan_string (c # cs) =
     (if c = CHR 0x22 then Some ([], cs)
      else if c = CHR 0x5C then
        (case cs of
           [] \<Rightarrow> None
         | e # r \<Rightarrow>
             if e = CHR ''u'' then
               (case r of
                  a # b # h # l # r' \<Rightarrow>
                    (case (hex_val a, hex_val b, hex_val h, hex_val l) of
                       (Some 0, Some 0, Some x, Some y) \<Rightarrow>
                         cons_char (char_of (16 * x + y)) (scan_string r')
                     | _ \<Rightarrow> None)
                | _ \<Rightarrow> None)
             else
               (case unescape e of
                  None \<Rightarrow> None
                | Some x \<Rightarrow> cons_char x (scan_string r)))
      else if (of_char c :: nat) < 32 then None
      else cons_char c (scan_string cs))"

definition is_digit :: "char \<Rightarrow> bool" where
  "is_digit c = (48 \<le> (of_char c :: nat) \<and> (of_char c :: nat) \<le> 57)"

definition digits_val :: "string \<Rightarrow> nat" where
  "digits_val ds = foldl (\<lambda>acc c. 10 * acc + (of_char c - 48)) 0 ds"

definition scan_int :: "string \<Rightarrow> (int \<times> string) option" where
  "scan_int s =
     (let neg = (case s of [] \<Rightarrow> False | c # r \<Rightarrow> c = CHR ''-'');
          r = (if neg then tl s else s);
          ds = (case r of [] \<Rightarrow> [] | c # r' \<Rightarrow> if c = CHR ''0'' then [c] else takeWhile is_digit r);
          rest = drop (length ds) r
      in if ds = [] then None
         else if (case rest of [] \<Rightarrow> False | c # r' \<Rightarrow> c = CHR ''.'' \<or> c = CHR ''e'' \<or> c = CHR ''E'')
           then None
         else Some (if neg then - int (digits_val ds) else int (digits_val ds), rest))"

definition dict_of :: "(string \<times> pyval) list \<Rightarrow> (string \<times> pyval) list" where
  "dict_of pairs = fold (\<lambda>kv d. AList.update (fst kv) (snd kv) d) pairs []"

fun parse_value :: "nat \<Rightarrow> string \<Rightarrow> (pyval \<times> string) option"
  and parse_elems :: "nat \<Rightarrow> string \<Rightarrow> (pyval list \<times> string) option"
  and parse_members :: "nat \<Rightarrow> string \<Rightarrow> ((string \<times> pyval) list \<times> string) option" where
  "parse_value 0 s = None"
| "parse_value (Suc n) s =
     (let t = skip_ws s in
      (case strip_prefix ''null'' t of Some r \<Rightarrow> Some (PNone, r) | None \<Rightarrow>
      (case strip_prefix ''true'' t of Some r \<Rightarrow> Some (PBool True, r) | None \<Rightarrow>
      (case strip_prefix ''false'' t of Some r \<Rightarrow> Some (PBool False, r) | None \<Rightarrow>
      (case strip_prefix [CHR 0x22] t of
         Some r \<Rightarrow>
           (case scan_string r of None \<Rightarrow> None | Some (x, rest) \<Rightarrow> Some (PStr x, rest))
       | None \<Rightarrow>
      (case strip_prefix ''['' t of
         Some r \<Rightarrow>
           (case expect CHR '']'' r of
              Some rest \<Rightarrow> Some (PList [], rest)
            | None \<Rightarrow>
                (case parse_elems n r of
                   None \<Rightarrow> None
                 | Some (xs, rest) \<Rightarrow> Some (PList xs, rest)))
       | None \<Rightarrow>
      (case strip_prefix ''{'' t of
         Some r \<Rightarrow>
           (case expect CHR ''}'' r of
              Some rest \<Rightarrow> Some (PDict [], rest)
            | None \<Rightarrow>
                (case parse_members n r of
                   None \<Rightarrow> None
                 | Some (kvs, rest) \<Rightarrow> Some (PDict (dict_of kvs), rest)))
       | None \<Rightarrow>
           (case scan_int t of None \<Rightarrow> None | Some (i, rest) \<Rightarrow> Some (PInt i, rest)))))))))"
| "parse_elems 0 s = None"
| "parse_elems (Suc n) s =
     (case parse_value n s of
        None \<Rightarrow> None
      | Some (v, r) \<Rightarrow>
          (case expect CHR '','' r of
             Some r' \<Rightarrow>
               (case parse_elems n r' of None \<Rightarrow> None | Some (vs, rest) \<Rightarrow> Some (v # vs, rest))
           | None \<Rightarrow>
               (case expect CHR '']'' r of None \<Rightarrow> None | Some rest \<Rightarrow> Some ([v], rest))))"
| "parse_members 0 s = None"
| "parse_members (Suc n) s =
     (case expect (CHR 0x22) s of
        None \<Rightarrow> None
      | Some r \<Rightarrow>
     (case scan_string r of
        None \<Rightarrow> None
      | Some (k, r1) \<Rightarrow>
     (case expect CHR '':'' r1 of
        None \<Rightarrow> None
      | Some r2 \<Rightarrow>
     (case parse_value n r2 of
        None \<Rightarrow> None
      | Some (v, r3) \<Rightarrow>
          (case expect CHR '','' r3 of
             Some r4 \<Rightarrow>
               (case parse_members n r4 of
                  None \<Rightarrow> None
                | Some (kvs, rest) \<Rightarrow> Some ((k, v) # kvs, rest))
           | None \<Rightarrow>
               (case expect CHR ''}'' r3 of None \<Rightarrow> None | Some rest \<Rightarrow> Some ([(k, v)], rest)))))))"

definition json_loads :: "string \<Rightarrow> pyval option" where
  "json_loads s =
     (case parse_value (2 * length s + 2) s of
        None \<Rightarrow> None
      | Some (v, rest) \<Rightarrow> if skip_ws rest = [] then Some v else None)"

text \<open>
  The values \<open>json_loads\<close> returns: no dictionary has a key twice. \<open>nodes\<close> counts the
  values inside a value, which bounds the fuel that reading its text takes.
\<close>

fun wf_value :: "pyval \<Rightarrow> bool" where
  "wf_value (PList xs) = list_all wf_value xs"
| "wf_value (PDict kvs) = (distinct (map fst kvs) \<and> list_all (\<lambda>kv. wf_value (snd kv)) kvs)"
| "wf_value v = True"

fun nodes :: "pyval \<Rightarrow> nat" where
  "nodes (PList xs) = Suc (sum_list (map (\<lambda>x. Suc (nodes x)) xs))"
| "nodes (PDict kvs) = Suc (sum_list (map (\<lambda>kv. Suc (nodes (snd kv))) kvs))"
| "nodes v = 1"

text \<open>A form whose name, trigger and text, where present, are such values.\<close>

definition wf_form :: "form_data \<Rightarrow> bool" where
  "wf_form d = ((case fd_name d of None \<Rightarrow> True | Some x \<Rightarrow> wf_value x) \<and>
                (case fd_command d of None \<Rightarrow> True | Some x \<Rightarrow> wf_value x) \<and>
                (case fd_text d of None \<Rightarrow> True | Some x \<Rightarrow> wf_value x))"

text \<open>
  What may stand around a value in a text: white space before it; a character that can
  begin a value; and, after an integer, anything that does not continue the number.
\<close>

definition all_ws :: "string \<Rightarrow> bool" where
  "all_ws pre = list_all is_ws pre"

definition starter :: "char \<Rightarrow> bool" where
  "starter c = (\<not> is_ws c \<and> c \<noteq> CHR '']'' \<and> c \<noteq> CHR ''}'' \<and> c \<noteq> CHR '','')"

definition int_end :: "string \<Rightarrow> bool" where
  "int_end rest = (case rest of [] \<Rightarrow> True
     | c # r \<Rightarrow> \<not> is_digit c \<and> c \<noteq> CHR ''.'' \<and> c \<noteq> CHR ''e'' \<and> c \<noteq> CHR ''E'')"

section \<open>Example collections\<close>

text \<open>
  A parent \<^verbatim>\<open>/p\<close> with one child \<^verbatim>\<open>/c\<close>, the child in the persisted layout of the spec,
  and a top-level entry of type \<^verbatim>\<open>child\<close> without a \<^verbatim>\<open>children\<close> field.
\<close>

definition example_parent :: pyval where
  "example_parent =
     PDict [(''name'', PStr ''p''), (''command'', PStr ''/p''), (''text'', PStr ''P''),
            (''type'', PStr ''parent''),
            (''children'',
             PList [PDict [(''name'', PStr ''c''), (''command'', PStr ''/c''),
                           (''text'', PStr ''C'')]])]"

definition example_leaf :: pyval where
  "example_leaf =
     PDict [(''name'', PStr ''sig''), (''command'', PStr ''/sig''), (''text'', PStr ''Regards''),
            (''type'', PStr ''child'')]"

text \<open>Two top-level entries with the same trigger.\<close>

definition example_twins :: pyval where
  "example_twins =
     PList [PDict [(''name'', PStr ''one''), (''command'', PStr ''/x''), (''text'', PStr ''first''),
                   (''type'', PStr ''child'')],
            PDict [(''name'', PStr ''two''), (''command'', PStr ''/x''), (''text'', PStr ''second''),
                   (''type'', PStr ''parent''), (''children'', PList [])]]"

text \<open>
  A top-level entry of type \<^verbatim>\<open>child\<close> that has a \<^verbatim>\<open>children\<close> list, a filled-in form for
  a given parent and index, and an application state whose file holds the commands.
\<close>

definition example_solo :: pyval where
  "example_solo =
     PDict [(''name'', PStr ''solo''), (''command'', PStr ''/solo''), (''text'', PStr ''S''),
            (''type'', PStr ''child''), (''children'', PList [])]"

definition example_form :: "int option \<Rightarrow> int option \<Rightarrow> form_data" where
  "example_form parent index =
     \<lparr>fd_index = index, fd_parent = parent, fd_name = Some (PStr ''new''),
      fd_command = Some (PStr ''/new''), fd_text = Some (PStr ''N'')\<rparr>"

definition example_app :: "pyval list \<Rightarrow> form_data \<Rightarrow> app" where
  "example_app cs d =
     \<lparr>commands = PList cs, commands_json = Some (json_dumps (PList cs)), form = d,
      registered = []\<rparr>"

text \<open>A file that holds a collection in a layout other than the one the program writes.\<close>

definition example_text :: string where
  \<open>example_text = ''[{"name":"a", "command" : "/a","text":"A","type":"child"}, 7]''\<close>




lemmas example_defs = example_parent_def example_leaf_def
lemmas example_defs2 = example_parent_def example_leaf_def example_solo_def example_form_def example_app_def
lemmas abs_defs = abs_collection_def abs_command_def abs_leaf_def str_field_def leaf.extend_def
lemmas listen_defs = listen_keys_def register_command_def child_abbreviation_def and_then_def

section \<open>Compilation follows the spec's description\<close>

lemma str_field_Some: "str_field v k = Some s \<Longrightarrow> getitem_str v k = Inr (PStr s)"
  by (auto simp: str_field_def split: sum.splits pyval.splits)

lemma abs_leaf_fields:
  assumes "abs_leaf v = Some l"
  shows "getitem_str v ''name'' = Inr (PStr (leaf_name l))"
    and "getitem_str v ''command'' = Inr (PStr (leaf_trigger l))"
    and "getitem_str v ''text'' = Inr (PStr (leaf_text l))"
  using assms by (auto simp: abs_leaf_def split: option.splits dest: str_field_Some)

lemma child_abbreviation_leaf:
  assumes "abs_leaf ch = Some l" and "getitem_str cmd ''command'' = Inr (PStr t)"
  shows "child_abbreviation cmd ch = Inr (as_call (t @ leaf_trigger l, leaf_text l))"
  using assms abs_leaf_fields[OF assms(1)]
  by (simp add: child_abbreviation_def and_then_def as_call_def)

lemma register_children_leaves:
  assumes "getitem_str cmd ''command'' = Inr (PStr t)"
  shows "those (map abs_leaf chs) = Some ls \<Longrightarrow>
     register_children cmd chs = (map (\<lambda>c. as_call (t @ leaf_trigger c, leaf_text c)) ls, None)"
proof (induction chs arbitrary: ls)
  case Nil
  then show ?case by simp
next
  case (Cons ch chs)
  then obtain l ls' where l: "abs_leaf ch = Some l" and ls': "those (map abs_leaf chs) = Some ls'"
    and ls: "ls = l # ls'"
    by (auto split: option.splits)
  show ?case
    using Cons.IH[OF ls'] child_abbreviation_leaf[OF l assms] by (simp add: ls)
qed

lemma register_command_abs:
  assumes "abs_command v = Some e"
  shows "register_command v = (map as_call (entry_pairs e), None)"
proof -
  from assms obtain l ty where l: "abs_leaf v = Some l" and ty: "str_field v ''type'' = Some ty"
    by (auto simp: abs_command_def split: option.splits)
  note f = abs_leaf_fields[OF l] str_field_Some[OF ty]
  show ?thesis
  proof (cases "ty = ''parent''")
    case False
    with assms l ty have e: "e = leaf.extend l \<lparr>cmd_kind = Child, cmd_children = []\<rparr>"
      by (simp add: abs_command_def)
    show ?thesis using f False
      by (simp add: register_command_def e entry_pairs_def as_call_def leaf.extend_def)
  next
    case True
    with assms l ty obtain chs ls where chs: "getitem_str v ''children'' = Inr (PList chs)"
      and ls: "those (map abs_leaf chs) = Some ls"
      and e: "e = leaf.extend l \<lparr>cmd_kind = Parent, cmd_children = ls\<rparr>"
      by (auto simp: abs_command_def split: sum.splits pyval.splits option.splits)
    show ?thesis using f True chs register_children_leaves[OF f(2) ls]
      by (simp add: register_command_def e entry_pairs_def as_call_def leaf.extend_def and_then_def)
  qed
qed

lemma register_all_abs:
  "those (map abs_command cs) = Some tcs \<Longrightarrow>
     register_all cs = (map as_call (compile_spec tcs), None)"
proof (induction cs arbitrary: tcs)
  case Nil
  then show ?case by (simp add: compile_spec_def)
next
  case (Cons c cs)
  then obtain e es where e: "abs_command c = Some e" and es: "those (map abs_command cs) = Some es"
    and tcs: "tcs = e # es"
    by (auto split: option.splits)
  show ?case
    using Cons.IH[OF es] register_command_abs[OF e] by (simp add: tcs compile_spec_def)
qed

text \<open>
  Claim C2. For every collection whose entries are commands in the spec's sense,
  \<^verbatim>\<open>listen_keys\<close> registers, without raising, exactly the pairs of the spec's compilation
  in their order: for every top-level entry its trigger with its text, and for a parent
  after that, for each child in order, the parent's trigger followed by the child's
  trigger with the child's text. The parent \<^verbatim>\<open>/p\<close> with text \<^verbatim>\<open>P\<close> and one child \<^verbatim>\<open>/c\<close> with
  text \<^verbatim>\<open>C\<close> gives exactly the table that maps \<^verbatim>\<open>/p\<close> to \<^verbatim>\<open>P\<close> and \<^verbatim>\<open>/p/c\<close> to \<^verbatim>\<open>C\<close>.
\<close>

theorem listen_keys_compiles:
  "(abs_collection cmds = Some cs \<longrightarrow>
      listen_keys cmds = (map as_call (compile_spec cs), None)) \<and>
   table_of (fst (listen_keys (PList [example_parent]))) =
     [PStr ''/p'' \<mapsto> PStr ''P'', PStr ''/p/c'' \<mapsto> PStr ''C'']"
proof
  show "abs_collection cmds = Some cs \<longrightarrow>
      listen_keys cmds = (map as_call (compile_spec cs), None)"
    by (auto simp: abs_collection_def listen_keys_def register_all_abs split: pyval.splits)
  show "table_of (fst (listen_keys (PList [example_parent]))) =
     [PStr ''/p'' \<mapsto> PStr ''P'', PStr ''/p/c'' \<mapsto> PStr ''C'']"
    by (simp add: listen_defs example_defs table_of_def register_def)
qed

theorem listen_keys_compiles_witness:
  "abs_collection (PList [example_leaf, example_parent]) =
     Some [\<lparr>leaf_name = ''sig'', leaf_trigger = ''/sig'', leaf_text = ''Regards'',
            cmd_kind = Child, cmd_children = []\<rparr>,
           \<lparr>leaf_name = ''p'', leaf_trigger = ''/p'', leaf_text = ''P'', cmd_kind = Parent,
            cmd_children = [\<lparr>leaf_name = ''c'', leaf_trigger = ''/c'', leaf_text = ''C''\<rparr>]\<rparr>] \<and>
   listen_keys (PList [example_leaf, example_parent]) =
     ([(PStr ''/sig'', PStr ''Regards''), (PStr ''/p'', PStr ''P''), (PStr ''/p/c'', PStr ''C'')],
      None)"
proof -
  have a: "abs_collection (PList [example_leaf, example_parent]) =
     Some [\<lparr>leaf_name = ''sig'', leaf_trigger = ''/sig'', leaf_text = ''Regards'',
            cmd_kind = Child, cmd_children = []\<rparr>,
           \<lparr>leaf_name = ''p'', leaf_trigger = ''/p'', leaf_text = ''P'', cmd_kind = Parent,
            cmd_children = [\<lparr>leaf_name = ''c'', leaf_trigger = ''/c'', leaf_text = ''C''\<rparr>]\<rparr>]"
    by (simp add: abs_defs example_defs)
  from listen_keys_compiles[of "PList [example_leaf, example_parent]"] a
  show ?thesis by (simp add: compile_spec_def entry_pairs_def as_call_def)
qed

section \<open>The trigger table keeps the pair registered last\<close>

lemma fold_register: "fold register calls m = m ++ map_of (rev calls)"
proof (induction calls arbitrary: m)
  case Nil
  then show ?case by simp
next
  case (Cons c calls)
  have "fold register (c # calls) m = register c m ++ map_of (rev calls)"
    using Cons.IH[of "register c m"] by simp
  also have "register c m = m ++ [fst c \<mapsto> snd c]"
    by (simp add: register_def)
  also have "m ++ [fst c \<mapsto> snd c] ++ map_of (rev calls) = m ++ map_of (rev (c # calls))"
    by (simp add: map_add_assoc)
  finally show ?case .
qed

lemma table_of_rev: "table_of calls = map_of (rev calls)"
  by (simp add: table_of_def fold_register)

lemma table_of_last:
  assumes "k \<notin> fst ` set after"
  shows "table_of (before @ (k, v) # after) k = Some v"
proof -
  have "map_of (rev after) k = None"
    using assms by (simp add: map_of_eq_None_iff)
  then show ?thesis
    by (simp add: table_of_rev map_add_def)
qed

lemma as_call_trigger: "fst (as_call p) = PStr (fst p)"
  by (simp add: as_call_def)

text \<open>
  Claim C6. When the compilation of a collection produces the same trigger twice, the
  trigger table maps that trigger to the text of the pair compiled later: compilation
  follows the order of the collection, and the last pair registered for a trigger is the
  one the table keeps.
\<close>

theorem last_registered_wins:
  assumes "abs_collection cmds = Some cs"
    and "compile_spec cs = before @ (t, x0) # between @ (t, x) # after"
    and "t \<notin> fst ` set after"
  shows "table_of (fst (listen_keys cmds)) (PStr t) = Some (PStr x)"
proof -
  have calls: "fst (listen_keys cmds) = map as_call (compile_spec cs)"
    using assms(1)
    by (auto simp: abs_collection_def listen_keys_def register_all_abs split: pyval.splits)
  have "PStr t \<notin> fst ` set (map as_call after)"
    using assms(3) by (force simp: as_call_def)
  from table_of_last[OF this, of "map as_call (before @ (t, x0) # between)" "PStr x"]
  show ?thesis
    by (simp add: calls assms(2) as_call_def)
qed

theorem last_registered_wins_witness:
  "abs_collection example_twins =
     Some [\<lparr>leaf_name = ''one'', leaf_trigger = ''/x'', leaf_text = ''first'',
            cmd_kind = Child, cmd_children = []\<rparr>,
           \<lparr>leaf_name = ''two'', leaf_trigger = ''/x'', leaf_text = ''second'',
            cmd_kind = Parent, cmd_children = []\<rparr>] \<and>
   fst (listen_keys example_twins) = [(PStr ''/x'', PStr ''first''), (PStr ''/x'', PStr ''second'')] \<and>
   table_of (fst (listen_keys example_twins)) (PStr ''/x'') = Some (PStr ''second'')"
proof -
  have a: "abs_collection example_twins =
     Some [\<lparr>leaf_name = ''one'', leaf_trigger = ''/x'', leaf_text = ''first'',
            cmd_kind = Child, cmd_children = []\<rparr>,
           \<lparr>leaf_name = ''two'', leaf_trigger = ''/x'', leaf_text = ''second'',
            cmd_kind = Parent, cmd_children = []\<rparr>]"
    by (simp add: abs_defs example_twins_def)
  have b: "fst (listen_keys example_twins) =
      [(PStr ''/x'', PStr ''first''), (PStr ''/x'', PStr ''second'')]"
    by (simp add: listen_defs example_twins_def)
  from last_registered_wins[OF a, of "[]" "''/x''" "''first''" "[]" "''second''" "[]"] a b
  show ?thesis by (simp add: compile_spec_def entry_pairs_def)
qed

section \<open>A top-level entry that is not a parent\<close>





section \<open>The save button: updating an entry\<close>

lemma norm_index_less: "norm_index n i = Some j \<Longrightarrow> j < n"
  by (auto simp: norm_index_def split: if_splits)

lemma norm_index_None: "norm_index n i = None \<longleftrightarrow> i < - int n \<or> int n \<le> i"
  by (auto simp: norm_index_def)

lemma assign_top_ok:
  assumes "norm_index (length cs) i = Some j" and "cs ! j = PDict kvs"
  shows "assign_top i k (Some x) (PList cs) = Inr (PList (cs[j := PDict (AList.update k x kvs)]))"
  using assms by (simp add: assign_top_def and_then_def data_item_def put_int_def)

lemma assign_top_range:
  assumes "norm_index (length cs) i = None"
  shows "assign_top i k (Some x) (PList cs) = Inl IndexError"
  using assms by (simp add: assign_top_def and_then_def data_item_def)

lemma assign_child_ok:
  assumes "norm_index (length cs) p = Some j" and "cs ! j = PDict pk"
    and "map_of pk ''children'' = Some (PList chs)"
    and "norm_index (length chs) i = Some m" and "chs ! m = PDict ck"
  shows "assign_child p i k (Some x) (PList cs) =
     Inr (PList (cs[j := PDict (AList.update ''children''
                                  (PList (chs[m := PDict (AList.update k x ck)])) pk)]))"
  using assms by (simp add: assign_child_def and_then_def data_item_def put_int_def put_str_def)

lemma assign_child_parent_range:
  assumes "norm_index (length cs) p = None"
  shows "assign_child p i k (Some x) (PList cs) = Inl IndexError"
  using assms by (simp add: assign_child_def and_then_def data_item_def)

lemma assign_child_range:
  assumes "norm_index (length cs) p = Some j"
    and "getitem_str (cs ! j) ''children'' = Inr (PList chs)"
    and "norm_index (length chs) i = None"
  shows "assign_child p i k (Some x) (PList cs) = Inl IndexError"
  using assms by (simp add: assign_child_def and_then_def data_item_def)

lemma apply_form_update_top:
  assumes "fd_index d = Some i" and "fd_parent d = None"
    and "fd_name d = Some n" and "fd_command d = Some c" and "fd_text d = Some t"
    and j: "norm_index (length cs) i = Some j" and "cs ! j = PDict kvs"
  shows "apply_form d (PList cs) =
     (None, PList (cs[j := PDict (AList.update ''text'' t (AList.update ''command'' c
                                    (AList.update ''name'' n kvs)))]))"
  using assms norm_index_less[OF j]
  by (simp add: apply_form_def assign_top_ok)

lemma apply_form_update_child:
  assumes "fd_index d = Some i" and "fd_parent d = Some p"
    and "fd_name d = Some n" and "fd_command d = Some c" and "fd_text d = Some t"
    and j: "norm_index (length cs) p = Some j" and "cs ! j = PDict pk"
    and "map_of pk ''children'' = Some (PList chs)"
    and m: "norm_index (length chs) i = Some m" and "chs ! m = PDict ck"
  shows "apply_form d (PList cs) =
     (None, PList (cs[j := PDict (AList.update ''children''
        (PList (chs[m := PDict (AList.update ''text'' t (AList.update ''command'' c
                                  (AList.update ''name'' n ck)))])) pk)]))"
  using assms norm_index_less[OF j] norm_index_less[OF m]
  by (simp add: apply_form_def assign_child_ok update_conv')

text \<open>
  Claim C4. An update (the save button with an index in the form) whose index has no
  position in the addressed list fails with \<^verbatim>\<open>IndexError\<close>, the exception Python raises for
  the spec's \<^verbatim>\<open>IndexOutOfRangeError\<close>: a top-level index at or beyond the length of the
  collection (or below minus the length), a parent index likewise, or a child index at or
  beyond the length of the addressed parent's children. The exception leaves the handler,
  and the collection, the file and the form are as before.
\<close>

theorem update_index_out_of_range:
  assumes "commands s = PList cs"
    and "fd_index (form s) = Some i"
    and "fd_name (form s) = Some n"
    and "(fd_parent (form s) = None \<and> (i < - int (length cs) \<or> int (length cs) \<le> i)) \<or>
         (\<exists>p. fd_parent (form s) = Some p \<and>
           ((p < - int (length cs) \<or> int (length cs) \<le> p) \<or>
            (\<exists>j chs. norm_index (length cs) p = Some j \<and>
               getitem_str (cs ! j) ''children'' = Inr (PList chs) \<and>
               (i < - int (length chs) \<or> int (length chs) \<le> i))))"
  shows "on_button_pressed dump Save s = (Some IndexError, s)"
proof -
  have "apply_form (form s) (PList cs) = (Some IndexError, PList cs)"
    using assms(2-4)
    by (auto simp: apply_form_def assign_top_range assign_child_parent_range assign_child_range
        norm_index_None)
  then show ?thesis
    using assms(1) by (simp add: on_button_pressed_def)
qed

theorem update_index_out_of_range_witness:
  "on_button_pressed json_dumps Save
     (example_app [example_parent, example_leaf] (example_form None (Some 2))) =
     (Some IndexError, example_app [example_parent, example_leaf] (example_form None (Some 2))) \<and>
   on_button_pressed json_dumps Save
     (example_app [example_parent, example_leaf] (example_form (Some 0) (Some 1))) =
     (Some IndexError, example_app [example_parent, example_leaf] (example_form (Some 0) (Some 1)))"
proof
  show "on_button_pressed json_dumps Save
     (example_app [example_parent, example_leaf] (example_form None (Some 2))) =
     (Some IndexError, example_app [example_parent, example_leaf] (example_form None (Some 2)))"
    by (rule update_index_out_of_range[where cs = "[example_parent, example_leaf]" and i = 2
          and n = "PStr ''new''"])
       (simp_all add: example_app_def example_form_def)
  show "on_button_pressed json_dumps Save
     (example_app [example_parent, example_leaf] (example_form (Some 0) (Some 1))) =
     (Some IndexError, example_app [example_parent, example_leaf] (example_form (Some 0) (Some 1)))"
    by (rule update_index_out_of_range[where cs = "[example_parent, example_leaf]" and i = 1
          and n = "PStr ''new''"])
       (simp_all add: example_app_def example_form_def example_parent_def norm_index_def)
qed

section \<open>The save button: adding a child\<close>

lemma apply_form_add_child:
  assumes "fd_index d = None" and "fd_parent d = Some p"
    and "fd_name d = Some n" and "fd_command d = Some c" and "fd_text d = Some t"
    and "norm_index (length cs) p = Some j" and "cs ! j = PDict kvs"
    and "map_of kvs ''children'' = Some (PList chs)"
  shows "apply_form d (PList cs) =
     (None, PList (cs[j := PDict (AList.update ''children''
        (PList (chs @ [PDict [(''name'', n), (''command'', c), (''text'', t),
                              (''type'', PStr ''child''), (''children'', PList [])]])) kvs)]))"
  using assms
  by (simp add: apply_form_def new_command_def append_child_def and_then_def data_item_def
      put_int_def put_str_def)

lemma apply_form_add_child_range:
  assumes "fd_index d = None" and "fd_parent d = Some p"
    and "fd_name d = Some n" and "fd_command d = Some c" and "fd_text d = Some t"
    and "norm_index (length cs) p = None"
  shows "apply_form d (PList cs) = (Some IndexError, PList cs)"
  using assms
  by (simp add: apply_form_def new_command_def append_child_def and_then_def data_item_def)

lemma apply_form_add_child_no_children:
  assumes "fd_index d = None" and "fd_parent d = Some p"
    and "fd_name d = Some n" and "fd_command d = Some c" and "fd_text d = Some t"
    and "norm_index (length cs) p = Some j" and "cs ! j = PDict kvs"
    and "map_of kvs ''children'' = None"
  shows "apply_form d (PList cs) = (Some KeyError, PList cs)"
  using assms
  by (simp add: apply_form_def new_command_def append_child_def and_then_def data_item_def)

text \<open>
  Claim C3, amended. Adding a child (the save button with a parent and no index in the
  form) fails with \<^verbatim>\<open>IndexError\<close>, leaving the state as it was, when the parent index has no
  position in the collection. The kind of the addressed entry is not checked: when the
  entry is a dictionary with a \<^verbatim>\<open>children\<close> list the child is appended and the collection
  saved, whatever the entry's type, and when it is a dictionary without a \<^verbatim>\<open>children\<close>
  field the call fails with \<^verbatim>\<open>KeyError\<close>, the state again as it was.
\<close>

theorem add_child_unchecked_kind:
  assumes "commands s = PList cs"
    and "fd_index (form s) = None" and "fd_parent (form s) = Some p"
    and "fd_name (form s) = Some n" and "fd_command (form s) = Some c"
    and "fd_text (form s) = Some t"
  shows "((p < - int (length cs) \<or> int (length cs) \<le> p) \<longrightarrow>
            on_button_pressed dump Save s = (Some IndexError, s)) \<and>
         (\<forall>j kvs. norm_index (length cs) p = Some j \<and> cs ! j = PDict kvs \<and>
              map_of kvs ''children'' = None \<longrightarrow>
            on_button_pressed dump Save s = (Some KeyError, s)) \<and>
         (\<forall>j kvs chs. norm_index (length cs) p = Some j \<and> cs ! j = PDict kvs \<and>
              map_of kvs ''children'' = Some (PList chs) \<longrightarrow>
            on_button_pressed dump Save s =
              (None, save dump (s\<lparr>commands := PList (cs[j := PDict (AList.update ''children''
                 (PList (chs @ [PDict [(''name'', n), (''command'', c), (''text'', t),
                                       (''type'', PStr ''child''), (''children'', PList [])]]))
                 kvs)])\<rparr>)))"
proof (intro conjI allI impI)
  assume "p < - int (length cs) \<or> int (length cs) \<le> p"
  then have "norm_index (length cs) p = None"
    by (simp add: norm_index_None)
  from apply_form_add_child_range[OF assms(2-6) this]
  show "on_button_pressed dump Save s = (Some IndexError, s)"
    using assms(1) by (simp add: on_button_pressed_def)
next
  fix j kvs
  assume "norm_index (length cs) p = Some j \<and> cs ! j = PDict kvs \<and> map_of kvs ''children'' = None"
  then have "apply_form (form s) (PList cs) = (Some KeyError, PList cs)"
    using apply_form_add_child_no_children[OF assms(2-6)] by blast
  then show "on_button_pressed dump Save s = (Some KeyError, s)"
    using assms(1) by (simp add: on_button_pressed_def)
next
  fix j kvs chs
  assume "norm_index (length cs) p = Some j \<and> cs ! j = PDict kvs \<and>
              map_of kvs ''children'' = Some (PList chs)"
  then have "apply_form (form s) (PList cs) =
     (None, PList (cs[j := PDict (AList.update ''children''
        (PList (chs @ [PDict [(''name'', n), (''command'', c), (''text'', t),
                              (''type'', PStr ''child''), (''children'', PList [])]])) kvs)]))"
    using apply_form_add_child[OF assms(2-6)] by blast
  then show "on_button_pressed dump Save s =
              (None, save dump (s\<lparr>commands := PList (cs[j := PDict (AList.update ''children''
                 (PList (chs @ [PDict [(''name'', n), (''command'', c), (''text'', t),
                                       (''type'', PStr ''child''), (''children'', PList [])]]))
                 kvs)])\<rparr>))"
    using assms(1) by (simp add: on_button_pressed_def)
qed

text \<open>
  The claim as stated fails: a child is added, without any error, to a top-level entry of
  type \<^verbatim>\<open>child\<close>.
\<close>

theorem add_child_to_leaf_counterexample:
  "getitem_str example_solo ''type'' = Inr (PStr ''child'') \<and>
   fst (on_button_pressed json_dumps Save (example_app [example_solo] (example_form (Some 0) None)))
     = None \<and>
   commands (snd (on_button_pressed json_dumps Save
       (example_app [example_solo] (example_form (Some 0) None)))) =
     PList [PDict [(''name'', PStr ''solo''), (''command'', PStr ''/solo''), (''text'', PStr ''S''),
                   (''type'', PStr ''child''),
                   (''children'',
                    PList [PDict [(''name'', PStr ''new''), (''command'', PStr ''/new''),
                                  (''text'', PStr ''N''), (''type'', PStr ''child''),
                                  (''children'', PList [])]])]]"
  by (simp add: example_defs2 on_button_pressed_def apply_form_def new_command_def
      append_child_def and_then_def data_item_def put_int_def put_str_def norm_index_def save_def)

theorem add_child_unchecked_kind_witness:
  "on_button_pressed json_dumps Save
     (example_app [example_solo, example_parent, example_leaf] (example_form (Some 3) None)) =
     (Some IndexError,
      example_app [example_solo, example_parent, example_leaf] (example_form (Some 3) None)) \<and>
   on_button_pressed json_dumps Save
     (example_app [example_solo, example_parent, example_leaf] (example_form (Some 2) None)) =
     (Some KeyError,
      example_app [example_solo, example_parent, example_leaf] (example_form (Some 2) None)) \<and>
   fst (on_button_pressed json_dumps Save
     (example_app [example_solo, example_parent, example_leaf] (example_form (Some 0) None))) = None"
proof -
  let ?cs = "[example_solo, example_parent, example_leaf]"
  have a: "on_button_pressed json_dumps Save (example_app ?cs (example_form (Some 3) None)) =
     (Some IndexError, example_app ?cs (example_form (Some 3) None))"
    using add_child_unchecked_kind[where dump = json_dumps and cs = ?cs and p = 3
        and s = "example_app ?cs (example_form (Some 3) None)"]
    by (simp add: example_app_def example_form_def)
  have b: "on_button_pressed json_dumps Save (example_app ?cs (example_form (Some 2) None)) =
     (Some KeyError, example_app ?cs (example_form (Some 2) None))"
    using add_child_unchecked_kind[where dump = json_dumps and cs = ?cs and p = 2
        and s = "example_app ?cs (example_form (Some 2) None)"]
    by (simp add: example_app_def example_form_def norm_index_def example_leaf_def)
  have c: "fst (on_button_pressed json_dumps Save (example_app ?cs (example_form (Some 0) None)))
      = None"
    using add_child_unchecked_kind[where dump = json_dumps and cs = ?cs and p = 0
        and s = "example_app ?cs (example_form (Some 0) None)"]
    by (simp add: example_app_def example_form_def norm_index_def example_solo_def)
  from a b c show ?thesis by simp
qed

text \<open>
  Claim C7, amended. A child appended with the save button and persisted is stored with
  five fields, in this order: \<^verbatim>\<open>name\<close>, \<^verbatim>\<open>command\<close>, \<^verbatim>\<open>text\<close>, \<^verbatim>\<open>type\<close> with the value \<^verbatim>\<open>"child"\<close>,
  and \<^verbatim>\<open>children\<close> with the empty list. It is the last of its parent's children in the
  collection that is written to the file.
\<close>

theorem appended_child_fields:
  assumes "commands s = PList cs"
    and "fd_index (form s) = None" and "fd_parent (form s) = Some p"
    and "fd_name (form s) = Some n" and "fd_command (form s) = Some c"
    and "fd_text (form s) = Some t"
    and "norm_index (length cs) p = Some j" and "cs ! j = PDict kvs"
    and "map_of kvs ''children'' = Some (PList chs)"
  shows "\<exists>cs'. on_button_pressed dump Save s =
             (None, s\<lparr>commands := PList cs', commands_json := Some (dump (PList cs'))\<rparr>) \<and>
           getitem_str (cs' ! j) ''children'' =
             Inr (PList (chs @ [PDict [(''name'', n), (''command'', c), (''text'', t),
                                       (''type'', PStr ''child''), (''children'', PList [])]]))"
proof -
  let ?child = "PDict [(''name'', n), (''command'', c), (''text'', t),
                       (''type'', PStr ''child''), (''children'', PList [])]"
  let ?cs' = "cs[j := PDict (AList.update ''children'' (PList (chs @ [?child])) kvs)]"
  have "j < length cs"
    using assms(7) by (rule norm_index_less)
  then have "getitem_str (?cs' ! j) ''children'' = Inr (PList (chs @ [?child]))"
    by (simp add: update_conv')
  moreover have "on_button_pressed dump Save s =
      (None, s\<lparr>commands := PList ?cs', commands_json := Some (dump (PList ?cs'))\<rparr>)"
    using apply_form_add_child[OF assms(2-9)] assms(1)
    by (simp add: on_button_pressed_def save_def)
  ultimately show ?thesis by blast
qed

text \<open>
  The claim as stated fails: read back from the file, the appended child has the fields
  \<^verbatim>\<open>type\<close> and \<^verbatim>\<open>children\<close> besides the three of the claim.
\<close>

theorem appended_child_fields_counterexample:
  "map_option json_loads (commands_json (snd (on_button_pressed json_dumps Save
      (example_app [example_parent] (example_form (Some 0) None))))) =
   Some (Some (PList
     [PDict [(''name'', PStr ''p''), (''command'', PStr ''/p''), (''text'', PStr ''P''),
             (''type'', PStr ''parent''),
             (''children'',
              PList [PDict [(''name'', PStr ''c''), (''command'', PStr ''/c''),
                            (''text'', PStr ''C'')],
                     PDict [(''name'', PStr ''new''), (''command'', PStr ''/new''),
                            (''text'', PStr ''N''), (''type'', PStr ''child''),
                            (''children'', PList [])]])]]))"
  by code_simp

theorem appended_child_fields_witness:
  "\<exists>cs'. on_button_pressed json_dumps Save
            (example_app [example_leaf, example_parent] (example_form (Some (- 1)) None)) =
          (None, (example_app [example_leaf, example_parent] (example_form (Some (- 1)) None))
                   \<lparr>commands := PList cs', commands_json := Some (json_dumps (PList cs'))\<rparr>) \<and>
         getitem_str (cs' ! 1) ''children'' =
           Inr (PList [PDict [(''name'', PStr ''c''), (''command'', PStr ''/c''),
                              (''text'', PStr ''C'')],
                       PDict [(''name'', PStr ''new''), (''command'', PStr ''/new''),
                              (''text'', PStr ''N''), (''type'', PStr ''child''),
                              (''children'', PList [])]])"
  using appended_child_fields[where dump = json_dumps and p = "- 1" and j = 1
      and cs = "[example_leaf, example_parent]"
      and s = "example_app [example_leaf, example_parent] (example_form (Some (- 1)) None)"
      and n = "PStr ''new''" and c = "PStr ''/new''" and t = "PStr ''N''"
      and chs = "[PDict [(''name'', PStr ''c''), (''command'', PStr ''/c''),
                              (''text'', PStr ''C'')]]"]
  by (simp add: example_app_def example_form_def norm_index_def example_parent_def)

section \<open>The reference codec reads back what it writes\<close>

text \<open>
  Strings first: every character is read back from its escaped form. Then integers, then
  lists and dictionaries by induction on the value, and last the values the parser can
  return at all.
\<close>

lemma hex_val_hex_digit: "d < 16 \<Longrightarrow> hex_val (hex_digit d) = Some d"
proof -
  assume "d < 16"
  then have "d = 0 \<or> d = 1 \<or> d = 2 \<or> d = 3 \<or> d = 4 \<or> d = 5 \<or> d = 6 \<or> d = 7 \<or>
      d = 8 \<or> d = 9 \<or> d = 10 \<or> d = 11 \<or> d = 12 \<or> d = 13 \<or> d = 14 \<or> d = 15"
    by arith
  then show ?thesis
    by (auto simp: hex_digit_def hex_val_def)
qed

lemma char_parts: "char_of (16 * (of_char c div 16) + of_char c mod 16 :: nat) = c"
  by simp

lemma scan_escape: "scan_string (escape_char c @ tail) = cons_char c (scan_string tail)"
proof -
  let ?n = "of_char c :: nat"
  have div: "?n div 16 < 16"
    using nat_of_char_less_256[of c] by (simp add: less_mult_imp_div_less)
  have md: "?n mod 16 < 16" by simp
  consider (quote) "c = CHR 0x22" | (bs) "c = CHR 0x5C" | (nl) "c = CHR 0x0A"
    | (cr) "c = CHR 0x0D" | (tab) "c = CHR 0x09" | (bsp) "c = CHR 0x08" | (ff) "c = CHR 0x0C"
    | (ctl) "c \<notin> {CHR 0x22, CHR 0x5C, CHR 0x0A, CHR 0x0D, CHR 0x09, CHR 0x08, CHR 0x0C}"
        "?n < 32 \<or> 126 < ?n"
    | (plain) "c \<notin> {CHR 0x22, CHR 0x5C, CHR 0x0A, CHR 0x0D, CHR 0x09, CHR 0x08, CHR 0x0C}"
        "\<not> (?n < 32 \<or> 126 < ?n)"
    by blast
  then show ?thesis
  proof cases
    case ctl
    then have "escape_char c = [CHR 0x5C, CHR ''u'', CHR ''0'', CHR ''0'',
         hex_digit (?n div 16), hex_digit (?n mod 16)]"
      by (simp add: escape_char_def)
    then show ?thesis
      using hex_val_hex_digit[OF div] hex_val_hex_digit[OF md] char_parts[of c]
      by (simp add: hex_val_def[of "CHR ''0''"])
  next
    case plain
    then show ?thesis
      by (simp add: escape_char_def)
  qed (simp_all add: escape_char_def unescape_def)
qed

lemma scan_escaped:
  "scan_string (concat (map escape_char s) @ CHR 0x22 # rest) = Some (s, rest)"
  by (induction s) (simp_all add: scan_escape cons_char_def)

lemma scan_dump_str: "strip_prefix [CHR 0x22] (dump_str s @ rest) = Some (concat (map escape_char s) @ CHR 0x22 # rest)"
  by (simp add: dump_str_def)

lemma digit_char: "k < 10 \<Longrightarrow> is_digit (''0123456789'' ! k) \<and> of_char (''0123456789'' ! k) - 48 = k
   \<and> (''0123456789'' ! k = CHR ''0'' \<longleftrightarrow> k = 0)"
proof -
  assume "k < 10"
  then have "k = 0 \<or> k = 1 \<or> k = 2 \<or> k = 3 \<or> k = 4 \<or> k = 5 \<or> k = 6 \<or> k = 7 \<or>
      k = 8 \<or> k = 9"
    by arith
  then show ?thesis by (auto simp: is_digit_def)
qed

lemma digits_val_snoc: "digits_val (ds @ [d]) = 10 * digits_val ds + (of_char d - 48)"
  by (simp add: digits_val_def)

lemma show_nat_digits:
  "show_nat n \<noteq> [] \<and> (\<forall>c \<in> set (show_nat n). is_digit c) \<and> digits_val (show_nat n) = n \<and>
   (hd (show_nat n) = CHR ''0'' \<longleftrightarrow> n = 0)"
proof (induction n rule: show_nat.induct)
  case (1 n)
  show ?case
  proof (cases "n < 10")
    case True
    then have s: "show_nat n = [''0123456789'' ! n]"
      by (simp add: show_nat.simps[of n])
    show ?thesis
      using digit_char[OF True] by (simp add: s digits_val_def)
  next
    case False
    then have s: "show_nat n = show_nat (n div 10) @ [''0123456789'' ! (n mod 10)]"
      by (simp add: show_nat.simps[of n])
    have m: "n mod 10 < 10" by simp
    have d: "n div 10 \<noteq> 0" using False by simp
    from "1.IH"[OF False] digit_char[OF m] d show ?thesis
      by (auto simp: s digits_val_snoc)
  qed
qed

lemma takeWhile_digits:
  assumes "\<forall>c \<in> set ds. is_digit c" and "int_end rest"
  shows "takeWhile is_digit (ds @ rest) = ds"
  using assms by (cases rest) (auto simp: int_end_def takeWhile_append)

lemma scan_nat:
  assumes "int_end rest"
  shows "scan_int (show_nat n @ rest) = Some (int n, rest)"
proof -
  note d = show_nat_digits[of n]
  obtain c cs where s: "show_nat n = c # cs"
    using d by (cases "show_nat n") auto
  have dig: "is_digit c" using d s by simp
  then have nm: "c \<noteq> CHR ''-''" by (auto simp: is_digit_def)
  show ?thesis
  proof (cases "n = 0")
    case True
    then have "show_nat n = ''0''" by (simp add: show_nat.simps[of 0])
    then show ?thesis
      using assms True by (cases rest) (auto simp: scan_int_def int_end_def digits_val_def)
  next
    case False
    then have c0: "c \<noteq> CHR ''0''" using d s by simp
    have tw: "takeWhile is_digit (cs @ rest) = cs"
      using takeWhile_digits[OF _ assms, of cs] d s by simp
    have e: "\<not> (case rest of [] \<Rightarrow> False
        | c # r' \<Rightarrow> c = CHR ''.'' \<or> c = CHR ''e'' \<or> c = CHR ''E'')"
      using assms by (cases rest) (auto simp: int_end_def)
    have dv: "digits_val (c # cs) = n"
      using d s by simp
    show ?thesis
      using nm c0 dig tw e dv
      by (simp add: scan_int_def s Let_def)
  qed
qed

lemma scan_show_int:
  assumes "int_end rest"
  shows "scan_int (show_int i @ rest) = Some (i, rest)"
proof (cases "i < 0")
  case False
  then show ?thesis using scan_nat[OF assms, of "nat i"] by (simp add: show_int_def)
next
  case True
  note d = show_nat_digits[of "nat (- i)"]
  obtain c cs where s: "show_nat (nat (- i)) = c # cs"
    using d by (cases "show_nat (nat (- i))") auto
  have dig: "is_digit c" using d s by simp
  have "scan_int (show_nat (nat (- i)) @ rest) = Some (int (nat (- i)), rest)"
    by (rule scan_nat[OF assms])
  then show ?thesis
    using True dig
    by (auto simp: show_int_def scan_int_def s Let_def is_digit_def split: if_splits)
qed

lemma skip_ws_pre: "all_ws pre \<Longrightarrow> \<not> is_ws c \<Longrightarrow> skip_ws (pre @ c # s) = c # s"
  by (induction pre) (auto simp: skip_ws_def all_ws_def list_all_iff)

lemma all_ws_newline_indent [simp]: "all_ws (newline_indent l)"
  by (auto simp: all_ws_def list_all_iff newline_indent_def is_ws_def)

lemma all_ws_Nil [simp]: "all_ws []"
  by (simp add: all_ws_def list_all_iff)

lemma all_ws_append [simp]: "all_ws (a @ b) = (all_ws a \<and> all_ws b)"
  by (auto simp: all_ws_def list_all_iff)

lemma show_nat_hd: "\<exists>c cs. show_nat n = c # cs \<and> is_digit c"
  using show_nat_digits[of n] by (cases "show_nat n") auto

lemma show_int_hd: "\<exists>c cs. show_int i = c # cs \<and> (is_digit c \<or> c = CHR ''-'')"
  using show_nat_hd[of "nat i"] by (auto simp: show_int_def)

lemma is_digit_cases: "is_digit c \<Longrightarrow> starter c \<and> c \<notin> {CHR ''n'', CHR ''t'', CHR ''f'', CHR 0x22, CHR ''['', CHR ''{''}"
  by (auto simp: is_digit_def starter_def is_ws_def)

lemma dump_value_hd: "\<exists>c cs. dump_value l v = c # cs \<and> starter c"
proof (cases v)
  case (PInt i)
  then show ?thesis
    using show_int_hd[of i] is_digit_cases by (auto simp: starter_def is_ws_def)
qed (auto simp: starter_def is_ws_def dump_str_def)

lemma expect_hit: "all_ws pre \<Longrightarrow> \<not> is_ws c \<Longrightarrow> expect c (pre @ c # s) = Some s"
  by (simp add: expect_def skip_ws_pre)

lemma expect_miss: "all_ws pre \<Longrightarrow> \<not> is_ws d \<Longrightarrow> d \<noteq> c \<Longrightarrow> expect c (pre @ d # s) = None"
  by (simp add: expect_def skip_ws_pre)

lemma int_end_simps [simp]:
  "int_end []" "int_end (CHR '','' # s)" "int_end (CHR 0x0A # s)"
  by (simp_all add: int_end_def is_digit_def)

lemma int_end_newline_indent [simp]: "int_end (newline_indent l @ s)"
  by (simp add: newline_indent_def)

lemma first_char_int:
  assumes "is_digit c \<or> c = CHR ''-''"
  shows "\<not> is_ws c \<and> c \<noteq> CHR ''n'' \<and> c \<noteq> CHR ''t'' \<and> c \<noteq> CHR ''f'' \<and> c \<noteq> CHR 0x22 \<and>
     c \<noteq> CHR ''['' \<and> c \<noteq> CHR ''{''"
  using assms
proof
  assume "is_digit c"
  then show ?thesis by (auto simp: is_digit_def is_ws_def)
next
  assume "c = CHR ''-''"
  then show ?thesis by (simp add: is_ws_def)
qed

lemma parse_scalar:
  assumes "all_ws pre" and "int_end rest"
  shows "parse_value (Suc n) (pre @ dump_value l PNone @ rest) = Some (PNone, rest)"
    and "parse_value (Suc n) (pre @ dump_value l (PBool b) @ rest) = Some (PBool b, rest)"
    and "parse_value (Suc n) (pre @ dump_value l (PStr s) @ rest) = Some (PStr s, rest)"
    and "parse_value (Suc n) (pre @ dump_value l (PInt i) @ rest) = Some (PInt i, rest)"
proof -
  show "parse_value (Suc n) (pre @ dump_value l PNone @ rest) = Some (PNone, rest)"
    using skip_ws_pre[OF assms(1), of "CHR ''n''"] by (simp add: is_ws_def)
  show "parse_value (Suc n) (pre @ dump_value l (PBool b) @ rest) = Some (PBool b, rest)"
  proof (cases b)
    case True
    have "skip_ws (pre @ ''true'' @ rest) = ''true'' @ rest"
      using skip_ws_pre[OF assms(1), of "CHR ''t''"] by (simp add: is_ws_def)
    then show ?thesis by (simp add: True)
  next
    case False
    have "skip_ws (pre @ ''false'' @ rest) = ''false'' @ rest"
      using skip_ws_pre[OF assms(1), of "CHR ''f''"] by (simp add: is_ws_def)
    then show ?thesis by (simp add: False)
  qed
  show "parse_value (Suc n) (pre @ dump_value l (PStr s) @ rest) = Some (PStr s, rest)"
    using skip_ws_pre[OF assms(1), of "CHR 0x22"]
    by (simp add: is_ws_def dump_str_def scan_escaped)
  obtain c cs where s: "show_int i = c # cs" and c: "is_digit c \<or> c = CHR ''-''"
    using show_int_hd by blast
  have nws: "\<not> is_ws c" and ne: "c \<noteq> CHR ''n''" "c \<noteq> CHR ''t''" "c \<noteq> CHR ''f''"
      "c \<noteq> CHR 0x22" "c \<noteq> CHR ''[''" "c \<noteq> CHR ''{''"
    using first_char_int[OF c] by simp_all
  have "skip_ws (pre @ show_int i @ rest) = show_int i @ rest"
    using skip_ws_pre[OF assms(1) nws, of "cs @ rest"] by (simp add: s)
  moreover have "scan_int (show_int i @ rest) = Some (i, rest)"
    by (rule scan_show_int[OF assms(2)])
  ultimately show "parse_value (Suc n) (pre @ dump_value l (PInt i) @ rest) = Some (PInt i, rest)"
    using ne by (simp add: s)
qed

lemma parse_elems_last:
  "parse_value m s = Some (v, r) \<Longrightarrow> expect CHR '','' r = None \<Longrightarrow>
   expect CHR '']'' r = Some rest \<Longrightarrow> parse_elems (Suc m) s = Some ([v], rest)"
  by simp

lemma parse_elems_more:
  "parse_value m s = Some (v, r) \<Longrightarrow> expect CHR '','' r = Some r' \<Longrightarrow>
   parse_elems m r' = Some (vs, rest) \<Longrightarrow> parse_elems (Suc m) s = Some (v # vs, rest)"
  by simp

lemma parse_members_last:
  "expect (CHR 0x22) s = Some r \<Longrightarrow> scan_string r = Some (k, r1) \<Longrightarrow>
   expect CHR '':'' r1 = Some r2 \<Longrightarrow> parse_value m r2 = Some (v, r3) \<Longrightarrow>
   expect CHR '','' r3 = None \<Longrightarrow> expect CHR ''}'' r3 = Some rest \<Longrightarrow>
   parse_members (Suc m) s = Some ([(k, v)], rest)"
  by simp

lemma parse_members_more:
  "expect (CHR 0x22) s = Some r \<Longrightarrow> scan_string r = Some (k, r1) \<Longrightarrow>
   expect CHR '':'' r1 = Some r2 \<Longrightarrow> parse_value m r2 = Some (v, r3) \<Longrightarrow>
   expect CHR '','' r3 = Some r4 \<Longrightarrow> parse_members m r4 = Some (kvs, rest) \<Longrightarrow>
   parse_members (Suc m) s = Some ((k, v) # kvs, rest)"
  by simp

lemma parse_value_list:
  "skip_ws s = CHR ''['' # r \<Longrightarrow> expect CHR '']'' r = None \<Longrightarrow>
   parse_elems n r = Some (xs, rest) \<Longrightarrow> parse_value (Suc n) s = Some (PList xs, rest)"
  by simp

lemma parse_value_empty_list:
  "skip_ws s = CHR ''['' # r \<Longrightarrow> expect CHR '']'' r = Some rest \<Longrightarrow>
   parse_value (Suc n) s = Some (PList [], rest)"
  by simp

lemma parse_value_dict:
  "skip_ws s = CHR ''{'' # r \<Longrightarrow> expect CHR ''}'' r = None \<Longrightarrow>
   parse_members n r = Some (kvs, rest) \<Longrightarrow>
   parse_value (Suc n) s = Some (PDict (dict_of kvs), rest)"
  by simp

lemma parse_value_empty_dict:
  "skip_ws s = CHR ''{'' # r \<Longrightarrow> expect CHR ''}'' r = Some rest \<Longrightarrow>
   parse_value (Suc n) s = Some (PDict [], rest)"
  by simp

lemma not_ws_simps [simp]:
  "\<not> is_ws CHR '',''" "\<not> is_ws CHR '']''" "\<not> is_ws CHR ''}''" "\<not> is_ws CHR ''[''"
  "\<not> is_ws CHR ''{''" "\<not> is_ws CHR '':''" "\<not> is_ws (CHR 0x22)" "is_ws CHR '' ''"
  by (simp_all add: is_ws_def)

lemma all_ws_space [simp]: "all_ws '' ''"
  by (simp add: all_ws_def list_all_iff)

lemma update_fresh: "k \<notin> fst ` set al \<Longrightarrow> AList.update k v al = al @ [(k, v)]"
  by (induction al) auto

lemma fold_update_fresh:
  "distinct (map fst kvs) \<Longrightarrow> fst ` set kvs \<inter> fst ` set acc = {} \<Longrightarrow>
   fold (\<lambda>kv d. AList.update (fst kv) (snd kv) d) kvs acc = acc @ kvs"
proof (induction kvs arbitrary: acc)
  case Nil
  then show ?case by simp
next
  case (Cons kv kvs)
  have fresh: "fst kv \<notin> fst ` set acc"
    using Cons.prems(2) by auto
  have "fst ` set kvs \<inter> fst ` set (acc @ [(fst kv, snd kv)]) = {}"
    using Cons.prems by auto
  with Cons.IH[of "acc @ [(fst kv, snd kv)]"] Cons.prems(1) fresh
  show ?case by (simp add: update_fresh)
qed

lemma dict_of_distinct: "distinct (map fst kvs) \<Longrightarrow> dict_of kvs = kvs"
  using fold_update_fresh[of kvs "[]"] by (simp add: dict_of_def)

lemma Suc_le_obtain: "Suc a \<le> G \<Longrightarrow> \<exists>m. G = Suc m \<and> a \<le> m"
  by (cases G) auto

lemma parse_elems_dump:
  assumes IH: "\<And>x pre rest F. x \<in> set xs \<Longrightarrow> nodes x \<le> F \<Longrightarrow> all_ws pre \<Longrightarrow> int_end rest \<Longrightarrow>
      parse_value F (pre @ dump_value l x @ rest) = Some (x, rest)"
  shows "xs \<noteq> [] \<Longrightarrow> sum_list (map (\<lambda>x. Suc (nodes x)) xs) \<le> G \<Longrightarrow> all_ws pre \<Longrightarrow>
     parse_elems G (pre @ join (CHR '','' # newline_indent l) (map (dump_value l) xs)
                      @ newline_indent k @ CHR '']'' # rest) = Some (xs, rest)"
  using IH
proof (induction xs arbitrary: G pre)
  case Nil
  then show ?case by simp
next
  case (Cons x xs)
  from Cons.prems(2) obtain m where G: "G = Suc m"
    and m: "nodes x + sum_list (map (\<lambda>x. Suc (nodes x)) xs) \<le> m"
    using Suc_le_obtain[of "nodes x + sum_list (map (\<lambda>x. Suc (nodes x)) xs)" G] by auto
  show ?case
  proof (cases xs)
    case Nil
    let ?tail = "newline_indent k @ CHR '']'' # rest"
    have pv: "parse_value m (pre @ dump_value l x @ ?tail) = Some (x, ?tail)"
      using Cons.prems(4)[of x m pre ?tail] m Cons.prems(3) by simp
    have e1: "expect CHR '','' ?tail = None"
      by (rule expect_miss) simp_all
    have e2: "expect CHR '']'' ?tail = Some rest"
      by (rule expect_hit) simp_all
    from parse_elems_last[OF pv e1 e2] show ?thesis
      by (simp add: G Nil del: parse_elems.simps)
  next
    case (Cons y ys)
    let ?more = "newline_indent l @ join (CHR '','' # newline_indent l) (map (dump_value l) xs)
                      @ newline_indent k @ CHR '']'' # rest"
    let ?tail = "CHR '','' # ?more"
    have pv: "parse_value m (pre @ dump_value l x @ ?tail) = Some (x, ?tail)"
      using Cons.prems(4)[of x m pre ?tail] m Cons.prems(3) by simp
    have e1: "expect CHR '','' ?tail = Some ?more"
      using expect_hit[of "[]" "CHR '',''" ?more] by simp
    have pe: "parse_elems m ?more = Some (xs, rest)"
      using Cons.IH[of m "newline_indent l"] Cons.prems(4) m Cons by simp
    from parse_elems_more[OF pv e1 pe] show ?thesis
      by (simp add: G Cons del: parse_elems.simps)
  qed
qed

lemma parse_members_dump:
  assumes IH: "\<And>kv pre rest F. kv \<in> set kvs \<Longrightarrow> nodes (snd kv) \<le> F \<Longrightarrow> all_ws pre \<Longrightarrow>
      int_end rest \<Longrightarrow> parse_value F (pre @ dump_value l (snd kv) @ rest) = Some (snd kv, rest)"
  shows "kvs \<noteq> [] \<Longrightarrow> sum_list (map (\<lambda>kv. Suc (nodes (snd kv))) kvs) \<le> G \<Longrightarrow> all_ws pre \<Longrightarrow>
     parse_members G (pre @ join (CHR '','' # newline_indent l)
                        (map (\<lambda>kv. dump_str (fst kv) @ '': '' @ dump_value l (snd kv)) kvs)
                      @ newline_indent k @ CHR ''}'' # rest) = Some (kvs, rest)"
  using IH
proof (induction kvs arbitrary: G pre)
  case Nil
  then show ?case by simp
next
  case (Cons kv kvs)
  obtain key v where kv: "kv = (key, v)" by (cases kv)
  from Cons.prems(2) obtain m where G: "G = Suc m"
    and m: "nodes v + sum_list (map (\<lambda>kv. Suc (nodes (snd kv))) kvs) \<le> m"
    using Suc_le_obtain[of "nodes v + sum_list (map (\<lambda>kv. Suc (nodes (snd kv))) kvs)" G]
    by (auto simp: kv)
  let ?esc = "concat (map escape_char key)"
  have key_text: "dump_str key = CHR 0x22 # ?esc @ [CHR 0x22]"
    by (simp add: dump_str_def)
  show ?case
  proof (cases kvs)
    case Nil
    let ?tail = "newline_indent k @ CHR ''}'' # rest"
    let ?r2 = "CHR '' '' # dump_value l v @ ?tail"
    have e0: "expect (CHR 0x22) (pre @ CHR 0x22 # ?esc @ CHR 0x22 # CHR '':'' # ?r2) =
        Some (?esc @ CHR 0x22 # CHR '':'' # ?r2)"
      by (rule expect_hit[OF Cons.prems(3)]) simp
    have sc: "scan_string (?esc @ CHR 0x22 # CHR '':'' # ?r2) = Some (key, CHR '':'' # ?r2)"
      by (rule scan_escaped)
    have ec: "expect CHR '':'' (CHR '':'' # ?r2) = Some ?r2"
      using expect_hit[of "[]" "CHR '':''" ?r2] by simp
    have pv: "parse_value m ?r2 = Some (v, ?tail)"
      using Cons.prems(4)[of kv m "'' ''" ?tail] m by (simp add: kv)
    have e1: "expect CHR '','' ?tail = None"
      by (rule expect_miss) simp_all
    have e2: "expect CHR ''}'' ?tail = Some rest"
      by (rule expect_hit) simp_all
    from parse_members_last[OF e0 sc ec pv e1 e2] show ?thesis
      by (simp add: G Nil kv key_text del: parse_members.simps)
  next
    case (Cons kv' kvs')
    let ?more = "newline_indent l @ join (CHR '','' # newline_indent l)
                        (map (\<lambda>kv. dump_str (fst kv) @ '': '' @ dump_value l (snd kv)) kvs)
                      @ newline_indent k @ CHR ''}'' # rest"
    let ?tail = "CHR '','' # ?more"
    let ?r2 = "CHR '' '' # dump_value l v @ ?tail"
    have e0: "expect (CHR 0x22) (pre @ CHR 0x22 # ?esc @ CHR 0x22 # CHR '':'' # ?r2) =
        Some (?esc @ CHR 0x22 # CHR '':'' # ?r2)"
      by (rule expect_hit[OF Cons.prems(3)]) simp
    have sc: "scan_string (?esc @ CHR 0x22 # CHR '':'' # ?r2) = Some (key, CHR '':'' # ?r2)"
      by (rule scan_escaped)
    have ec: "expect CHR '':'' (CHR '':'' # ?r2) = Some ?r2"
      using expect_hit[of "[]" "CHR '':''" ?r2] by simp
    have pv: "parse_value m ?r2 = Some (v, ?tail)"
      using Cons.prems(4)[of kv m "'' ''" ?tail] m by (simp add: kv)
    have e1: "expect CHR '','' ?tail = Some ?more"
      using expect_hit[of "[]" "CHR '',''" ?more] by simp
    have pm: "parse_members m ?more = Some (kvs, rest)"
      using Cons.IH[of m "newline_indent l"] Cons.prems(4) m Cons by simp
    from parse_members_more[OF e0 sc ec pv e1 pm] show ?thesis
      by (simp add: G Cons kv key_text del: parse_members.simps)
  qed
qed

lemma join_hd:
  "xs \<noteq> [] \<Longrightarrow> \<exists>c cs. dump_value l (hd xs) = c # cs \<and>
     join sep (map (dump_value l) xs) = c # cs @ (if tl xs = [] then [] else sep @ join sep (map (dump_value l) (tl xs)))"
proof (cases xs)
  case Nil
  assume "xs \<noteq> []"
  with Nil show ?thesis by simp
next
  case (Cons x ys)
  obtain c cs where d: "dump_value l x = c # cs"
    using dump_value_hd[of l x] by blast
  show ?thesis
    using d Cons by (cases ys) auto
qed

lemma parse_dump:
  "wf_value v \<Longrightarrow> nodes v \<le> F \<Longrightarrow> all_ws pre \<Longrightarrow> int_end rest \<Longrightarrow>
   parse_value F (pre @ dump_value l v @ rest) = Some (v, rest)"
proof (induction v arbitrary: F pre rest l)
  case PNone
  then obtain n where "F = Suc n" by (cases F) auto
  then show ?case using parse_scalar(1)[OF PNone(3,4)] by simp
next
  case (PBool b)
  then obtain n where "F = Suc n" by (cases F) auto
  then show ?case using parse_scalar(2)[OF PBool(3,4)] by simp
next
  case (PInt i)
  then obtain n where "F = Suc n" by (cases F) auto
  then show ?case using parse_scalar(4)[OF PInt(3,4)] by simp
next
  case (PStr s)
  then obtain n where "F = Suc n" by (cases F) auto
  then show ?case using parse_scalar(3)[OF PStr(3,4)] by simp
next
  case (PList xs)
  from PList.prems(2) obtain n where F: "F = Suc n"
    and n: "sum_list (map (\<lambda>x. Suc (nodes x)) xs) \<le> n"
    using Suc_le_obtain[of "sum_list (map (\<lambda>x. Suc (nodes x)) xs)" F] by auto
  show ?case
  proof (cases "xs = []")
    case True
    have sk: "skip_ws (pre @ dump_value l (PList xs) @ rest) = CHR ''['' # CHR '']'' # rest"
      using skip_ws_pre[OF PList.prems(3), of "CHR ''[''"] by (simp add: True)
    have e: "expect CHR '']'' (CHR '']'' # rest) = Some rest"
      using expect_hit[of "[]" "CHR '']''" rest] by simp
    from parse_value_empty_list[OF sk e] show ?thesis
      by (simp add: F True del: parse_value.simps)
  next
    case False
    let ?body = "join (CHR '','' # newline_indent (Suc l)) (map (dump_value (Suc l)) xs)"
    let ?r = "newline_indent (Suc l) @ ?body @ newline_indent l @ CHR '']'' # rest"
    have sk: "skip_ws (pre @ dump_value l (PList xs) @ rest) = CHR ''['' # ?r"
      using skip_ws_pre[OF PList.prems(3), of "CHR ''[''"] by (simp add: False)
    obtain c cs where "dump_value (Suc l) (hd xs) = c # cs" and
      body: "?body = c # cs @ (if tl xs = [] then []
         else (CHR '','' # newline_indent (Suc l)) @ join (CHR '','' # newline_indent (Suc l))
                (map (dump_value (Suc l)) (tl xs)))"
      using join_hd[OF False, of "Suc l" "CHR '','' # newline_indent (Suc l)"] by blast
    then have "starter c"
      using dump_value_hd[of "Suc l" "hd xs"] by auto
    then have c: "\<not> is_ws c" "c \<noteq> CHR '']''"
      by (auto simp: starter_def)
    have e: "expect CHR '']'' ?r = None"
      unfolding body using expect_miss[OF all_ws_newline_indent c] by simp
    have wf: "\<And>x. x \<in> set xs \<Longrightarrow> wf_value x"
      using PList.prems(1) by (simp add: list_all_iff)
    have pe: "parse_elems n ?r = Some (xs, rest)"
      using parse_elems_dump[of xs "Suc l" n "newline_indent (Suc l)" l rest, OF _ False n]
        PList.IH wf by simp
    from parse_value_list[OF sk e pe] show ?thesis
      by (simp add: F del: parse_value.simps)
  qed
next
  case (PDict kvs)
  from PDict.prems(2) obtain n where F: "F = Suc n"
    and n: "sum_list (map (\<lambda>kv. Suc (nodes (snd kv))) kvs) \<le> n"
    using Suc_le_obtain[of "sum_list (map (\<lambda>kv. Suc (nodes (snd kv))) kvs)" F] by auto
  have dist: "dict_of kvs = kvs"
    using PDict.prems(1) by (simp add: dict_of_distinct)
  show ?case
  proof (cases "kvs = []")
    case True
    have sk: "skip_ws (pre @ dump_value l (PDict kvs) @ rest) = CHR ''{'' # CHR ''}'' # rest"
      using skip_ws_pre[OF PDict.prems(3), of "CHR ''{''"] by (simp add: True)
    have e: "expect CHR ''}'' (CHR ''}'' # rest) = Some rest"
      using expect_hit[of "[]" "CHR ''}''" rest] by simp
    from parse_value_empty_dict[OF sk e] show ?thesis
      by (simp add: F True del: parse_value.simps)
  next
    case False
    let ?body = "join (CHR '','' # newline_indent (Suc l))
        (map (\<lambda>kv. dump_str (fst kv) @ '': '' @ dump_value (Suc l) (snd kv)) kvs)"
    let ?r = "newline_indent (Suc l) @ ?body @ newline_indent l @ CHR ''}'' # rest"
    have sk: "skip_ws (pre @ dump_value l (PDict kvs) @ rest) = CHR ''{'' # ?r"
      using skip_ws_pre[OF PDict.prems(3), of "CHR ''{''"] by (simp add: False)
    obtain kv kvs' where kvs: "kvs = kv # kvs'"
      using False by (cases kvs) auto
    have "\<exists>cs. ?body = CHR 0x22 # cs"
      by (cases kvs') (simp_all add: kvs dump_str_def)
    then obtain cs where body: "?body = CHR 0x22 # cs" by blast
    have e: "expect CHR ''}'' ?r = None"
      unfolding body using expect_miss[OF all_ws_newline_indent, where d = "CHR 0x22" and c = "CHR ''}''"]
      by simp
    have wf: "\<And>kv. kv \<in> set kvs \<Longrightarrow> wf_value (snd kv)"
      using PDict.prems(1) by (simp add: list_all_iff)
    have ih: "\<And>kv pre rest F. kv \<in> set kvs \<Longrightarrow> nodes (snd kv) \<le> F \<Longrightarrow> all_ws pre \<Longrightarrow>
      int_end rest \<Longrightarrow>
      parse_value F (pre @ dump_value (Suc l) (snd kv) @ rest) = Some (snd kv, rest)"
    proof -
      fix kv pre rest F
      assume a: "kv \<in> set kvs" "nodes (snd kv) \<le> F" "all_ws pre" "int_end rest"
      have "snd kv \<in> Basic_BNFs.snds kv"
        by (cases kv) simp
      from PDict.IH[OF a(1) this wf[OF a(1)] a(2,3,4)]
      show "parse_value F (pre @ dump_value (Suc l) (snd kv) @ rest) = Some (snd kv, rest)" .
    qed
    have pm: "parse_members n ?r = Some (kvs, rest)"
      using parse_members_dump[of kvs "Suc l" n "newline_indent (Suc l)" l rest, OF ih False n]
      by simp
    from parse_value_dict[OF sk e pm] show ?thesis
      by (simp add: F dist del: parse_value.simps)
  qed
qed

lemma join_length:
  "sep \<noteq> [] \<Longrightarrow> sum_list (map (\<lambda>y. Suc (length y)) ys) \<le> Suc (length (join sep ys))"
proof (induction sep ys rule: join.induct)
  case (3 sep x y ys)
  then show ?case by (cases sep) auto
qed simp_all

lemma sum_list_mono_map:
  "(\<And>x. x \<in> set xs \<Longrightarrow> f x \<le> g x) \<Longrightarrow> sum_list (map f xs) \<le> (sum_list (map g xs) :: nat)"
  by (induction xs) (auto intro: add_mono)

lemma nodes_le_length: "nodes v \<le> length (dump_value l v)"
proof (induction v arbitrary: l)
  case (PInt i)
  show ?case using show_int_hd[of i] by auto
next
  case (PStr s)
  show ?case by (simp add: dump_str_def)
next
  case (PList xs)
  show ?case
  proof (cases "xs = []")
    case False
    have "sum_list (map (\<lambda>x. Suc (nodes x)) xs) \<le>
        sum_list (map (\<lambda>x. Suc (length (dump_value (Suc l) x))) xs)"
      by (rule sum_list_mono_map) (simp add: PList.IH)
    also have "\<dots> = sum_list (map (\<lambda>y. Suc (length y)) (map (dump_value (Suc l)) xs))"
      by (simp add: comp_def)
    also have "\<dots> \<le> Suc (length (join (CHR '','' # newline_indent (Suc l))
        (map (dump_value (Suc l)) xs)))"
      by (rule join_length) simp
    finally show ?thesis
      using False by simp
  qed simp
next
  case (PDict kvs)
  show ?case
  proof (cases "kvs = []")
    case False
    have "sum_list (map (\<lambda>kv. Suc (nodes (snd kv))) kvs) \<le>
        sum_list (map (\<lambda>kv. Suc (length (dump_str (fst kv) @ '': '' @ dump_value (Suc l) (snd kv)))) kvs)"
    proof (rule sum_list_mono_map)
      fix kv assume "kv \<in> set kvs"
      moreover have "snd kv \<in> Basic_BNFs.snds kv" by (cases kv) simp
      ultimately have "nodes (snd kv) \<le> length (dump_value (Suc l) (snd kv))"
        by (rule PDict.IH)
      then show "Suc (nodes (snd kv)) \<le>
          Suc (length (dump_str (fst kv) @ '': '' @ dump_value (Suc l) (snd kv)))"
        by simp
    qed
    also have "\<dots> = sum_list (map (\<lambda>y. Suc (length y))
        (map (\<lambda>kv. dump_str (fst kv) @ '': '' @ dump_value (Suc l) (snd kv)) kvs))"
      by (simp add: comp_def)
    also have "\<dots> \<le> Suc (length (join (CHR '','' # newline_indent (Suc l))
        (map (\<lambda>kv. dump_str (fst kv) @ '': '' @ dump_value (Suc l) (snd kv)) kvs)))"
      by (rule join_length) simp
    finally show ?thesis
      using False by simp
  qed simp
qed simp_all

lemma loads_dumps: "wf_value v \<Longrightarrow> json_loads (json_dumps v) = Some v"
proof -
  assume wf: "wf_value v"
  have "nodes v \<le> 2 * length (dump_value 0 v) + 2"
    using nodes_le_length[of v 0] by simp
  from parse_dump[OF wf this, of "[]" "[]" 0]
  show ?thesis
    by (simp add: json_loads_def json_dumps_def skip_ws_def del: parse_value.simps)
qed

lemma update_all:
  "list_all (\<lambda>kv. P (snd kv)) al \<Longrightarrow> P v \<Longrightarrow> list_all (\<lambda>kv. P (snd kv)) (AList.update k v al)"
  by (induction al) auto

lemma fold_update_all:
  "list_all (\<lambda>kv. P (snd kv)) kvs \<Longrightarrow> list_all (\<lambda>kv. P (snd kv)) acc \<Longrightarrow>
   list_all (\<lambda>kv. P (snd kv)) (fold (\<lambda>kv d. AList.update (fst kv) (snd kv) d) kvs acc)"
  by (induction kvs arbitrary: acc) (auto simp: update_all)

lemma fold_update_distinct:
  "distinct (map fst acc) \<Longrightarrow>
   distinct (map fst (fold (\<lambda>kv d. AList.update (fst kv) (snd kv) d) kvs acc))"
  by (induction kvs arbitrary: acc) (auto simp: distinct_update)

lemma distinct_dict_of: "distinct (map fst (dict_of kvs))"
  using fold_update_distinct[of "[]" kvs] by (simp add: dict_of_def)

lemma list_all_dict_of:
  "list_all (\<lambda>kv. P (snd kv)) kvs \<Longrightarrow> list_all (\<lambda>kv. P (snd kv)) (dict_of kvs)"
  using fold_update_all[of P kvs "[]"] by (simp add: dict_of_def)

lemma parse_wf:
  "(\<forall>s v r. parse_value n s = Some (v, r) \<longrightarrow> wf_value v) \<and>
   (\<forall>s vs r. parse_elems n s = Some (vs, r) \<longrightarrow> list_all wf_value vs) \<and>
   (\<forall>s kvs r. parse_members n s = Some (kvs, r) \<longrightarrow> list_all (\<lambda>kv. wf_value (snd kv)) kvs)"
proof (induction n)
  case 0
  show ?case by simp
next
  case (Suc n)
  have v: "\<forall>s v r. parse_value (Suc n) s = Some (v, r) \<longrightarrow> wf_value v"
    using Suc.IH
    by (auto simp: Let_def distinct_dict_of list_all_dict_of split: option.splits prod.splits)
  have e: "\<forall>s vs r. parse_elems (Suc n) s = Some (vs, r) \<longrightarrow> list_all wf_value vs"
    using Suc.IH by (auto split: option.splits prod.splits)
  have m: "\<forall>s kvs r. parse_members (Suc n) s = Some (kvs, r) \<longrightarrow>
      list_all (\<lambda>kv. wf_value (snd kv)) kvs"
    using Suc.IH by (auto split: option.splits prod.splits)
  from v e m show ?case by blast
qed

lemma loads_wf:
  assumes "json_loads s = Some v"
  shows "wf_value v"
proof -
  from assms obtain r where "parse_value (2 * length s + 2) s = Some (v, r)"
    by (auto simp: json_loads_def simp del: parse_value.simps
        split: option.splits prod.splits if_splits)
  with parse_wf[of "2 * length s + 2"] show ?thesis by blast
qed

lemma codec_round_trip: "json_loads s = Some v \<Longrightarrow> json_loads (json_dumps v) = Some v"
  by (rule loads_dumps) (rule loads_wf)

section \<open>Saving keeps the keys of every dictionary distinct\<close>

lemma wf_getitem_int: "wf_value v \<Longrightarrow> getitem_int v i = Inr x \<Longrightarrow> wf_value x"
  by (cases v) (auto simp: list_all_length split: option.splits dest: norm_index_less)

lemma wf_getitem_str: "wf_value v \<Longrightarrow> getitem_str v k = Inr x \<Longrightarrow> wf_value x"
  by (cases v) (auto simp: list_all_iff split: option.splits dest: map_of_SomeD)

lemma wf_setitem_str:
  "wf_value v \<Longrightarrow> wf_value x \<Longrightarrow> setitem_str v k x = Inr v' \<Longrightarrow> wf_value v'"
  by (cases v) (auto simp: distinct_update update_all)

lemma wf_append_py:
  "wf_value v \<Longrightarrow> wf_value x \<Longrightarrow> append_py v x = Inr v' \<Longrightarrow> wf_value v'"
  by (cases v) auto

lemma wf_put_int: "wf_value v \<Longrightarrow> wf_value x \<Longrightarrow> wf_value (put_int v i x)"
  by (cases v)
    (auto simp: put_int_def list_all_iff split: option.splits dest!: set_update_subset_insert[THEN subsetD])

lemma wf_put_str: "wf_value v \<Longrightarrow> wf_value x \<Longrightarrow> wf_value (put_str v k x)"
  by (cases v) (auto simp: put_str_def distinct_update update_all)

lemma wf_assign_top:
  assumes "wf_value cmds" and "\<And>x. dv = Some x \<Longrightarrow> wf_value x"
    and "assign_top i k dv cmds = Inr cmds'"
  shows "wf_value cmds'"
proof -
  from assms(3) obtain x entry entry' where x: "dv = Some x"
    and e: "getitem_int cmds i = Inr entry" and e': "setitem_str entry k x = Inr entry'"
    and r: "cmds' = put_int cmds i entry'"
    by (auto simp: assign_top_def and_then_def data_item_def split: sum.splits option.splits)
  have "wf_value entry'"
    using wf_setitem_str[OF wf_getitem_int[OF assms(1) e] assms(2)[OF x] e'] .
  then show ?thesis
    using assms(1) by (simp add: r wf_put_int)
qed

lemma wf_assign_child:
  assumes "wf_value cmds" and "\<And>x. dv = Some x \<Longrightarrow> wf_value x"
    and "assign_child p i k dv cmds = Inr cmds'"
  shows "wf_value cmds'"
proof -
  from assms(3) obtain x parent children child child' where x: "dv = Some x"
    and a: "getitem_int cmds p = Inr parent" and b: "getitem_str parent ''children'' = Inr children"
    and c: "getitem_int children i = Inr child" and d: "setitem_str child k x = Inr child'"
    and r: "cmds' = put_int cmds p (put_str parent ''children'' (put_int children i child'))"
    by (auto simp: assign_child_def and_then_def data_item_def split: sum.splits option.splits)
  have wp: "wf_value parent" using wf_getitem_int[OF assms(1) a] .
  have wc: "wf_value children" using wf_getitem_str[OF wp b] .
  have "wf_value child'"
    using wf_setitem_str[OF wf_getitem_int[OF wc c] assms(2)[OF x] d] .
  then show ?thesis
    using assms(1) wp wc by (simp add: r wf_put_int wf_put_str)
qed

lemma wf_append_child:
  assumes "wf_value cmds" and "wf_value new" and "append_child p new cmds = Inr cmds'"
  shows "wf_value cmds'"
proof -
  from assms(3) obtain new' parent children children' where
    n: "setitem_str new ''type'' (PStr ''child'') = Inr new'"
    and a: "getitem_int cmds p = Inr parent" and b: "getitem_str parent ''children'' = Inr children"
    and c: "append_py children new' = Inr children'"
    and r: "cmds' = put_int cmds p (put_str parent ''children'' children')"
    by (auto simp: append_child_def and_then_def split: sum.splits)
  have wn: "wf_value new'" using wf_setitem_str[OF assms(2) _ n] by simp
  have wp: "wf_value parent" using wf_getitem_int[OF assms(1) a] .
  have wc: "wf_value children" using wf_getitem_str[OF wp b] .
  have "wf_value children'" using wf_append_py[OF wc wn c] .
  then show ?thesis
    using assms(1) wp by (simp add: r wf_put_int wf_put_str)
qed

lemma wf_run_stmts:
  assumes "\<And>stmt c c'. stmt \<in> set stmts \<Longrightarrow> wf_value c \<Longrightarrow> stmt c = Inr c' \<Longrightarrow> wf_value c'"
  shows "wf_value cmds \<Longrightarrow> wf_value (snd (run_stmts stmts cmds))"
  using assms
proof (induction stmts arbitrary: cmds)
  case Nil
  then show ?case by simp
next
  case (Cons stmt stmts)
  show ?case
  proof (cases "stmt cmds")
    case (Inl e)
    then show ?thesis using Cons.prems(1) by simp
  next
    case (Inr c')
    have w: "wf_value c'"
      using Cons.prems(2)[of stmt cmds c'] Cons.prems(1) Inr by simp
    have "wf_value (snd (run_stmts stmts c'))"
    proof (rule Cons.IH[OF w])
      fix s' c c''
      assume "s' \<in> set stmts" "wf_value c" "s' c = Inr c''"
      then show "wf_value c''"
        using Cons.prems(2)[of s' c c''] by simp
    qed
    then show ?thesis using Inr by simp
  qed
qed

lemma wf_new_command: "wf_form d \<Longrightarrow> new_command d = Inr new \<Longrightarrow> wf_value new"
  by (auto simp: new_command_def wf_form_def and_then_def data_item_def
      split: option.splits sum.splits)

lemma wf_data:
  assumes "wf_form d" and "dv = fd_name d \<or> dv = fd_command d \<or> dv = fd_text d"
    and "dv = Some x"
  shows "wf_value x"
proof -
  from assms(2,3) have "fd_name d = Some x \<or> fd_command d = Some x \<or> fd_text d = Some x"
    by auto
  then show ?thesis
    using assms(1) by (auto simp: wf_form_def)
qed

lemma wf_apply_form:
  assumes "wf_value cmds" and "wf_form d"
  shows "wf_value (snd (apply_form d cmds))"
proof (cases "fd_index d")
  case (Some i)
  show ?thesis
  proof (cases "fd_parent d")
    case None
    have "wf_value (snd (run_stmts [assign_top i ''name'' (fd_name d),
        assign_top i ''command'' (fd_command d), assign_top i ''text'' (fd_text d)] cmds))"
    proof (rule wf_run_stmts[OF _ assms(1)])
      fix stmt c c'
      assume m: "stmt \<in> set [assign_top i ''name'' (fd_name d),
          assign_top i ''command'' (fd_command d), assign_top i ''text'' (fd_text d)]"
        and w: "wf_value c" and r: "stmt c = Inr c'"
      from m obtain k dv where st: "stmt = assign_top i k dv"
        and dv: "dv = fd_name d \<or> dv = fd_command d \<or> dv = fd_text d"
        by auto
      have dvw: "\<And>x. dv = Some x \<Longrightarrow> wf_value x"
        using wf_data[OF assms(2) dv] .
      from r have "assign_top i k dv c = Inr c'"
        by (simp add: st)
      from wf_assign_top[OF w dvw this] show "wf_value c'" .
    qed
    then show ?thesis
      using Some None by (simp add: apply_form_def del: run_stmts.simps)
  next
    case (Some p)
    have "wf_value (snd (run_stmts [assign_child p i ''name'' (fd_name d),
        assign_child p i ''command'' (fd_command d), assign_child p i ''text'' (fd_text d)] cmds))"
    proof (rule wf_run_stmts[OF _ assms(1)])
      fix stmt c c'
      assume m: "stmt \<in> set [assign_child p i ''name'' (fd_name d),
          assign_child p i ''command'' (fd_command d), assign_child p i ''text'' (fd_text d)]"
        and w: "wf_value c" and r: "stmt c = Inr c'"
      from m obtain k dv where st: "stmt = assign_child p i k dv"
        and dv: "dv = fd_name d \<or> dv = fd_command d \<or> dv = fd_text d"
        by auto
      have dvw: "\<And>x. dv = Some x \<Longrightarrow> wf_value x"
        using wf_data[OF assms(2) dv] .
      from r have "assign_child p i k dv c = Inr c'"
        by (simp add: st)
      from wf_assign_child[OF w dvw this] show "wf_value c'" .
    qed
    then show ?thesis
      using \<open>fd_index d = Some i\<close> Some by (simp add: apply_form_def del: run_stmts.simps)
  qed
next
  case None
  show ?thesis
  proof (cases "new_command d")
    case (Inl e)
    then show ?thesis using None assms(1) by (simp add: apply_form_def)
  next
    case (Inr new)
    have wn: "wf_value new" using wf_new_command[OF assms(2) Inr] .
    show ?thesis
    proof (cases "fd_parent d")
      case None
      have "wf_value (snd (run_stmts [\<lambda>c. append_py c new] cmds))"
        using assms(1) wn wf_append_py[of cmds new] by (cases "append_py cmds new") auto
      then show ?thesis
        using \<open>fd_index d = None\<close> Inr None by (simp add: apply_form_def del: run_stmts.simps)
    next
      case (Some p)
      have "wf_value (snd (run_stmts [append_child p new] cmds))"
        using assms(1) wn wf_append_child[of cmds new p]
        by (cases "append_child p new cmds") auto
      then show ?thesis
        using \<open>fd_index d = None\<close> Inr Some by (simp add: apply_form_def del: run_stmts.simps)
    qed
  qed
qed

lemma wf_save_button:
  assumes "wf_value (commands s)" and "wf_form (form s)"
  shows "wf_value (commands (snd (on_button_pressed dump Save s)))"
  using wf_apply_form[OF assms]
  by (auto simp: on_button_pressed_def save_def split: prod.splits option.splits)

lemma reference_reload_after_save:
  assumes "wf_value (commands s)" and "wf_form (form s)"
  shows "json_loads (json_dumps (commands (snd (on_button_pressed json_dumps Save s)))) =
     Some (commands (snd (on_button_pressed json_dumps Save s)))"
  by (rule loads_dumps) (rule wf_save_button[OF assms])

section \<open>Saving, and loading what was saved\<close>

lemma load_of_saved:
  assumes "parse (dump v) = Some v"
  shows "commands (load parse dump (Some (dump v))) = v"
  using assms by (simp add: load_def)

lemma save_button_ok:
  assumes "apply_form (form s) (commands s) = (None, v)"
  shows "on_button_pressed dump Save s = (None, s\<lparr>commands := v, commands_json := Some (dump v)\<rparr>)"
  using assms by (simp add: on_button_pressed_def save_def)

lemma replaced_fields:
  "getitem_str (PDict (AList.update ''text'' t (AList.update ''command'' c
      (AList.update ''name'' n kvs)))) k =
   (if k = ''text'' then Inr t else if k = ''command'' then Inr c
    else if k = ''name'' then Inr n else getitem_str (PDict kvs) k)"
  by (simp add: update_conv')

text \<open>
  Claim C8. Let the save button update the entry addressed by the form (a top-level
  position, or a parent position and a child position, both valid and the addressed
  entry a dictionary), and let the file it wrote be loaded again, where \<^verbatim>\<open>json.load\<close> reads
  back the value \<^verbatim>\<open>json.dump\<close> wrote. Then the handler raises nothing, the loaded
  collection is the one held in memory after the update, and in it the addressed entry carries exactly the new name, trigger and text; all its
  other fields, its type and its children among them, are as before; and every other
  entry, at the top level and among the children of the same parent, is unchanged, as
  are the other fields of the parent of an updated child. The reference codec reads back
  what the save button wrote whenever the collection and the form hold values with
  distinct keys (\<open>reference_reload_after_save\<close>).
\<close>

theorem update_then_reload:
  assumes "commands s = PList cs"
    and "fd_index (form s) = Some i"
    and "fd_name (form s) = Some n" and "fd_command (form s) = Some c"
    and "fd_text (form s) = Some t"
    and "parse (dump (commands (snd (on_button_pressed dump Save s)))) =
           Some (commands (snd (on_button_pressed dump Save s)))"
  shows "(\<forall>j kvs. fd_parent (form s) = None \<and> norm_index (length cs) i = Some j \<and>
            cs ! j = PDict kvs \<longrightarrow>
          fst (on_button_pressed dump Save s) = None \<and>
          (\<exists>cs'. commands (load parse dump
                     (commands_json (snd (on_button_pressed dump Save s)))) = PList cs' \<and>
             commands (snd (on_button_pressed dump Save s)) = PList cs' \<and>
             length cs' = length cs \<and>
             (\<forall>k. k < length cs \<and> k \<noteq> j \<longrightarrow> cs' ! k = cs ! k) \<and>
             getitem_str (cs' ! j) ''name'' = Inr n \<and>
             getitem_str (cs' ! j) ''command'' = Inr c \<and>
             getitem_str (cs' ! j) ''text'' = Inr t \<and>
             (\<forall>key. key \<notin> {''name'', ''command'', ''text''} \<longrightarrow>
                getitem_str (cs' ! j) key = getitem_str (cs ! j) key))) \<and>
         (\<forall>p j pk chs m ck. fd_parent (form s) = Some p \<and> norm_index (length cs) p = Some j \<and>
            cs ! j = PDict pk \<and> map_of pk ''children'' = Some (PList chs) \<and>
            norm_index (length chs) i = Some m \<and> chs ! m = PDict ck \<longrightarrow>
          fst (on_button_pressed dump Save s) = None \<and>
          (\<exists>cs' chs'. commands (load parse dump
                     (commands_json (snd (on_button_pressed dump Save s)))) = PList cs' \<and>
             commands (snd (on_button_pressed dump Save s)) = PList cs' \<and>
             length cs' = length cs \<and>
             (\<forall>k. k < length cs \<and> k \<noteq> j \<longrightarrow> cs' ! k = cs ! k) \<and>
             (\<forall>key. key \<noteq> ''children'' \<longrightarrow>
                getitem_str (cs' ! j) key = getitem_str (cs ! j) key) \<and>
             getitem_str (cs' ! j) ''children'' = Inr (PList chs') \<and>
             length chs' = length chs \<and>
             (\<forall>k. k < length chs \<and> k \<noteq> m \<longrightarrow> chs' ! k = chs ! k) \<and>
             getitem_str (chs' ! m) ''name'' = Inr n \<and>
             getitem_str (chs' ! m) ''command'' = Inr c \<and>
             getitem_str (chs' ! m) ''text'' = Inr t \<and>
             (\<forall>key. key \<notin> {''name'', ''command'', ''text''} \<longrightarrow>
                getitem_str (chs' ! m) key = getitem_str (chs ! m) key)))"
proof (intro conjI allI impI; elim conjE)
  fix j kvs
  assume top: "fd_parent (form s) = None" "norm_index (length cs) i = Some j" "cs ! j = PDict kvs"
  let ?e = "PDict (AList.update ''text'' t (AList.update ''command'' c (AList.update ''name'' n kvs)))"
  let ?cs' = "cs[j := ?e]"
  have j: "j < length cs"
    using top(2) by (rule norm_index_less)
  have "apply_form (form s) (commands s) = (None, PList ?cs')"
    using apply_form_update_top[OF assms(2) top(1) assms(3-5) top(2,3)] assms(1) by simp
  from save_button_ok[OF this]
  have res: "on_button_pressed dump Save s =
      (None, s\<lparr>commands := PList ?cs', commands_json := Some (dump (PList ?cs'))\<rparr>)" .
  then show "fst (on_button_pressed dump Save s) = None" by simp
  have "parse (dump (PList ?cs')) = Some (PList ?cs')"
    using assms(6) by (simp add: res)
  then have re: "commands (load parse dump (commands_json (snd (on_button_pressed dump Save s))))
      = PList ?cs'"
    by (simp add: res load_of_saved)
  have mem: "commands (snd (on_button_pressed dump Save s)) = PList ?cs'"
    by (simp add: res)
  have "?cs' ! j = ?e"
    using j by simp
  then have "getitem_str (?cs' ! j) ''name'' = Inr n \<and>
             getitem_str (?cs' ! j) ''command'' = Inr c \<and>
             getitem_str (?cs' ! j) ''text'' = Inr t \<and>
             (\<forall>key. key \<notin> {''name'', ''command'', ''text''} \<longrightarrow>
                getitem_str (?cs' ! j) key = getitem_str (cs ! j) key)"
    by (simp add: replaced_fields top(3) del: getitem_str.simps)
  moreover have "length ?cs' = length cs \<and> (\<forall>k. k < length cs \<and> k \<noteq> j \<longrightarrow> ?cs' ! k = cs ! k)"
    by simp
  ultimately show "\<exists>cs'. commands (load parse dump
                     (commands_json (snd (on_button_pressed dump Save s)))) = PList cs' \<and>
             commands (snd (on_button_pressed dump Save s)) = PList cs' \<and>
             length cs' = length cs \<and>
             (\<forall>k. k < length cs \<and> k \<noteq> j \<longrightarrow> cs' ! k = cs ! k) \<and>
             getitem_str (cs' ! j) ''name'' = Inr n \<and>
             getitem_str (cs' ! j) ''command'' = Inr c \<and>
             getitem_str (cs' ! j) ''text'' = Inr t \<and>
             (\<forall>key. key \<notin> {''name'', ''command'', ''text''} \<longrightarrow>
                getitem_str (cs' ! j) key = getitem_str (cs ! j) key)"
    using re mem by blast
next
  fix p j pk chs m ck
  assume ch: "fd_parent (form s) = Some p" "norm_index (length cs) p = Some j"
    "cs ! j = PDict pk" "map_of pk ''children'' = Some (PList chs)"
    "norm_index (length chs) i = Some m" "chs ! m = PDict ck"
  let ?e = "PDict (AList.update ''text'' t (AList.update ''command'' c (AList.update ''name'' n ck)))"
  let ?chs' = "chs[m := ?e]"
  let ?cs' = "cs[j := PDict (AList.update ''children'' (PList ?chs') pk)]"
  have j: "j < length cs"
    using ch(2) by (rule norm_index_less)
  have m: "m < length chs"
    using ch(5) by (rule norm_index_less)
  have "apply_form (form s) (commands s) = (None, PList ?cs')"
    using apply_form_update_child[OF assms(2) ch(1) assms(3-5) ch(2-6)] assms(1) by simp
  from save_button_ok[OF this]
  have res: "on_button_pressed dump Save s =
      (None, s\<lparr>commands := PList ?cs', commands_json := Some (dump (PList ?cs'))\<rparr>)" .
  then show "fst (on_button_pressed dump Save s) = None" by simp
  have "parse (dump (PList ?cs')) = Some (PList ?cs')"
    using assms(6) by (simp add: res)
  then have re: "commands (load parse dump (commands_json (snd (on_button_pressed dump Save s))))
      = PList ?cs'"
    by (simp add: res load_of_saved)
  have mem: "commands (snd (on_button_pressed dump Save s)) = PList ?cs'"
    by (simp add: res)
  have "?chs' ! m = ?e"
    using m by simp
  then have e: "getitem_str (?chs' ! m) ''name'' = Inr n \<and>
             getitem_str (?chs' ! m) ''command'' = Inr c \<and>
             getitem_str (?chs' ! m) ''text'' = Inr t \<and>
             (\<forall>key. key \<notin> {''name'', ''command'', ''text''} \<longrightarrow>
                getitem_str (?chs' ! m) key = getitem_str (chs ! m) key)"
    by (simp add: replaced_fields ch(6) del: getitem_str.simps)
  have chs': "length ?chs' = length chs \<and> (\<forall>k. k < length chs \<and> k \<noteq> m \<longrightarrow> ?chs' ! k = chs ! k)"
    by simp
  have "?cs' ! j = PDict (AList.update ''children'' (PList ?chs') pk)"
    using j by simp
  then have par: "(\<forall>key. key \<noteq> ''children'' \<longrightarrow>
                getitem_str (?cs' ! j) key = getitem_str (cs ! j) key) \<and>
             getitem_str (?cs' ! j) ''children'' = Inr (PList ?chs')"
    by (simp add: update_conv' ch(3))
  have cs': "length ?cs' = length cs \<and> (\<forall>k. k < length cs \<and> k \<noteq> j \<longrightarrow> ?cs' ! k = cs ! k)"
    by simp
  show "\<exists>cs' chs'. commands (load parse dump
                     (commands_json (snd (on_button_pressed dump Save s)))) = PList cs' \<and>
             commands (snd (on_button_pressed dump Save s)) = PList cs' \<and>
             length cs' = length cs \<and>
             (\<forall>k. k < length cs \<and> k \<noteq> j \<longrightarrow> cs' ! k = cs ! k) \<and>
             (\<forall>key. key \<noteq> ''children'' \<longrightarrow>
                getitem_str (cs' ! j) key = getitem_str (cs ! j) key) \<and>
             getitem_str (cs' ! j) ''children'' = Inr (PList chs') \<and>
             length chs' = length chs \<and>
             (\<forall>k. k < length chs \<and> k \<noteq> m \<longrightarrow> chs' ! k = chs ! k) \<and>
             getitem_str (chs' ! m) ''name'' = Inr n \<and>
             getitem_str (chs' ! m) ''command'' = Inr c \<and>
             getitem_str (chs' ! m) ''text'' = Inr t \<and>
             (\<forall>key. key \<notin> {''name'', ''command'', ''text''} \<longrightarrow>
                getitem_str (chs' ! m) key = getitem_str (chs ! m) key)"
    apply (rule exI[of _ ?cs'])
    apply (rule exI[of _ ?chs'])
    using re mem e chs' par cs' apply blast
    done
qed

theorem update_then_reload_witness:
  "fst (on_button_pressed json_dumps Save
          (example_app [example_leaf, example_parent] (example_form None (Some 0)))) = None \<and>
   commands (load json_loads json_dumps (commands_json (snd (on_button_pressed json_dumps Save
          (example_app [example_leaf, example_parent] (example_form None (Some 0))))))) =
     PList [PDict [(''name'', PStr ''new''), (''command'', PStr ''/new''), (''text'', PStr ''N''),
                   (''type'', PStr ''child'')],
            example_parent] \<and>
   fst (on_button_pressed json_dumps Save
          (example_app [example_leaf, example_parent] (example_form (Some 1) (Some 0)))) = None \<and>
   commands (load json_loads json_dumps (commands_json (snd (on_button_pressed json_dumps Save
          (example_app [example_leaf, example_parent] (example_form (Some 1) (Some 0))))))) =
     PList [example_leaf,
            PDict [(''name'', PStr ''p''), (''command'', PStr ''/p''), (''text'', PStr ''P''),
                   (''type'', PStr ''parent''),
                   (''children'',
                    PList [PDict [(''name'', PStr ''new''), (''command'', PStr ''/new''),
                                  (''text'', PStr ''N'')]])]]"
proof -
  let ?cs = "[example_leaf, example_parent]"
  let ?top = "example_app ?cs (example_form None (Some 0))"
  let ?child = "example_app ?cs (example_form (Some 1) (Some 0))"
  have rt_top: "json_loads (json_dumps (commands (snd (on_button_pressed json_dumps Save ?top)))) =
      Some (commands (snd (on_button_pressed json_dumps Save ?top)))"
    by (rule reference_reload_after_save) (simp_all add: example_defs2 wf_form_def)
  have rt_child: "json_loads (json_dumps (commands (snd (on_button_pressed json_dumps Save ?child)))) =
      Some (commands (snd (on_button_pressed json_dumps Save ?child)))"
    by (rule reference_reload_after_save) (simp_all add: example_defs2 wf_form_def)
  have a: "fst (on_button_pressed json_dumps Save ?top) = None"
    using update_then_reload[where parse = json_loads and dump = json_dumps and s = ?top
        and cs = ?cs and i = 0, OF _ _ _ _ _ rt_top, THEN conjunct1, rule_format, of _ _ _ 0]
    by (simp add: example_app_def example_form_def norm_index_def example_leaf_def)
  have b: "fst (on_button_pressed json_dumps Save ?child) = None"
    using update_then_reload[where parse = json_loads and dump = json_dumps and s = ?child
        and cs = ?cs and i = 0, OF _ _ _ _ _ rt_child, THEN conjunct2, rule_format, of _ _ _ 1 1 _ _ 0]
    by (simp add: example_app_def example_form_def norm_index_def example_parent_def)
  have c: "commands (load json_loads json_dumps (commands_json (snd (on_button_pressed json_dumps Save
          ?top)))) =
     PList [PDict [(''name'', PStr ''new''), (''command'', PStr ''/new''), (''text'', PStr ''N''),
                   (''type'', PStr ''child'')],
            example_parent]"
    by code_simp
  have d: "commands (load json_loads json_dumps (commands_json (snd (on_button_pressed json_dumps Save
          ?child)))) =
     PList [example_leaf,
            PDict [(''name'', PStr ''p''), (''command'', PStr ''/p''), (''text'', PStr ''P''),
                   (''type'', PStr ''parent''),
                   (''children'',
                    PList [PDict [(''name'', PStr ''new''), (''command'', PStr ''/new''),
                                  (''text'', PStr ''N'')]])]]"
    by code_simp
  from a b c d show ?thesis by simp
qed

lemma saved_text: "commands_json (save dump s) = Some (dump (commands s))"
  by (simp add: save_def)

lemma save_load_twice:
  assumes "parse (dump (commands (load parse dump stored))) =
      Some (commands (load parse dump stored))"
  shows "commands_json (save dump (load parse dump
            (commands_json (save dump (load parse dump stored))))) =
         commands_json (save dump (load parse dump stored))"
  using assms by (simp add: saved_text load_of_saved)

lemma reference_load_round_trip:
  "json_loads (json_dumps (commands (load json_loads json_dumps stored))) =
     Some (commands (load json_loads json_dumps stored))"
proof (cases "case stored of None \<Rightarrow> None | Some txt \<Rightarrow> json_loads txt")
  case None
  then have "commands (load json_loads json_dumps stored) = PList []"
    by (simp add: load_def)
  then show ?thesis
    using loads_dumps[of "PList []"] by simp
next
  case (Some v)
  then obtain body where "json_loads body = Some v"
    by (cases stored) auto
  then have "json_loads (json_dumps v) = Some v"
    by (rule codec_round_trip)
  moreover have "commands (load json_loads json_dumps stored) = v"
    using Some by (simp add: load_def)
  ultimately show ?thesis by simp
qed

text \<open>
  Claim C9. Saving what was loaded, twice in succession, writes the same text the second
  time as the first, for every state of the file (absent, unreadable or holding a value):
  with any \<^verbatim>\<open>json.load\<close> and \<^verbatim>\<open>json.dump\<close> such that the loaded value is read back from the
  text written for it, and with the reference codec without any condition.
\<close>

theorem save_load_idempotent:
  "(parse (dump (commands (load parse dump stored))) =
      Some (commands (load parse dump stored)) \<longrightarrow>
    commands_json (save dump (load parse dump
        (commands_json (save dump (load parse dump stored))))) =
      commands_json (save dump (load parse dump stored))) \<and>
   commands_json (save json_dumps (load json_loads json_dumps
       (commands_json (save json_dumps (load json_loads json_dumps stored))))) =
     commands_json (save json_dumps (load json_loads json_dumps stored))"
  using save_load_twice[of parse dump stored]
    save_load_twice[OF reference_load_round_trip, of stored]
  by blast

theorem save_load_idempotent_witness:
  "json_loads example_text =
     Some (PList [PDict [(''name'', PStr ''a''), (''command'', PStr ''/a''),
                         (''text'', PStr ''A''), (''type'', PStr ''child'')],
                  PInt 7]) \<and>
   commands_json (save json_dumps (load json_loads json_dumps (Some example_text))) \<noteq>
     Some example_text \<and>
   commands_json (save json_dumps (load json_loads json_dumps
      (commands_json (save json_dumps (load json_loads json_dumps (Some example_text)))))) =
     commands_json (save json_dumps (load json_loads json_dumps (Some example_text))) \<and>
   commands_json (save json_dumps (load json_loads json_dumps
      (commands_json (save json_dumps (load json_loads json_dumps None))))) = Some ''[]''"
proof -
  have a: "json_loads example_text =
     Some (PList [PDict [(''name'', PStr ''a''), (''command'', PStr ''/a''),
                         (''text'', PStr ''A''), (''type'', PStr ''child'')],
                  PInt 7])"
    by code_simp
  have rt: "json_loads (json_dumps (commands (load json_loads json_dumps (Some example_text)))) =
      Some (commands (load json_loads json_dumps (Some example_text)))"
    by code_simp
  have b: "commands_json (save json_dumps (load json_loads json_dumps (Some example_text))) \<noteq>
      Some example_text"
    by code_simp
  have c: "commands_json (save json_dumps (load json_loads json_dumps None)) = Some ''[]''"
    by code_simp
  from a b c
    save_load_idempotent[of json_loads json_dumps "Some example_text", THEN conjunct1, THEN mp,
      OF rt]
    save_load_idempotent[of json_loads json_dumps None, THEN conjunct2]
  show ?thesis by simp
qed

section \<open>Loading does not validate\<close>




section \<open>Where the trigger gets its delimiter\<close>




end

